theory Spec2Isabelle
  imports Main "HOL-Library.Multiset" "HOL-Library.Product_Lexorder" "HOL-Library.List_Lexorder"
begin

text \<open>
  The repository holds its scanner twice: \<^verbatim>\<open>index.js\<close>, the entry point that is deployed,
  and a longer script with environment controls, called the extended script here. The
  two agree on most functions; where they differ, the definition from the extended
  script carries the suffix \<open>_ext\<close>.
\<close>

section \<open>Payload values\<close>

text \<open>
  The scanner inspects service payloads dynamically. A payload is a JSON-like value. An
  object is the list of its own properties in the order \<^verbatim>\<open>Object.keys\<close> enumerates
  them (keys are distinct in a real object). Numbers are integers here (no payload field
  read by the code is fractional, and \<^verbatim>\<open>NaN\<close> does not occur in parsed JSON).
\<close>

datatype jsval =
    JUndefined
  | JNull
  | JBool bool
  | JNum int
  | JStr string
  | JArr "jsval list"
  | JObj "(string \<times> jsval) list"

text \<open>\<^verbatim>\<open>Boolean(v)\<close>: the falsy values are undefined, null, false, 0 and the empty string;
  every array and every object is truthy, also an empty one.\<close>

fun truthy :: "jsval \<Rightarrow> bool" where
  "truthy JUndefined = False"
| "truthy JNull = False"
| "truthy (JBool b) = b"
| "truthy (JNum n) = (n \<noteq> 0)"
| "truthy (JStr s) = (s \<noteq> [])"
| "truthy (JArr xs) = True"
| "truthy (JObj kvs) = True"

text \<open>\<^verbatim>\<open>v.k\<close> for a value that is neither null nor undefined: an own property of an
  object, undefined on anything else (none of the keys read by the code is a property of a
  string, number, boolean or array).\<close>

fun get_prop :: "jsval \<Rightarrow> string \<Rightarrow> jsval" where
  "get_prop (JObj kvs) k = (case map_of kvs k of Some v \<Rightarrow> v | None \<Rightarrow> JUndefined)"
| "get_prop v k = JUndefined"

text \<open>\<^verbatim>\<open>v?.k\<close>: undefined when \<open>v\<close> is null or undefined.\<close>

fun opt_chain :: "jsval \<Rightarrow> string \<Rightarrow> jsval" where
  "opt_chain JUndefined k = JUndefined"
| "opt_chain JNull k = JUndefined"
| "opt_chain v k = get_prop v k"

text \<open>\<^verbatim>\<open>a || b\<close>.\<close>

definition js_or :: "jsval \<Rightarrow> jsval \<Rightarrow> jsval" where
  "js_or a b = (if truthy a then a else b)"

text \<open>\<^verbatim>\<open>Object.keys\<close> of a plain object.\<close>

definition object_keys :: "(string \<times> jsval) list \<Rightarrow> jsval list" where
  "object_keys kvs = map (\<lambda>kv. JStr (fst kv)) kvs"

section \<open>Tag classifier\<close>

text \<open>
  \<^verbatim>\<open>
  const extractTags = (obj) => {
    if (!obj) return [];
    const candidates = [obj.Tags, obj.TagSet, obj.TagList, obj.ResourceTags,
                        obj.Tags?.TagSet].filter(Boolean);
    for (const c of candidates) {
      if (Array.isArray(c)) return c;
      if (typeof c === "object") return Object.keys(c);
    }
    return [];
  };
  \<close>
  The loop over the candidates. After \<^verbatim>\<open>filter(Boolean)\<close> no candidate is null, so
  \<^verbatim>\<open>typeof c === "object"\<close> and not an array means a plain object; a candidate of any
  other type falls through to the next iteration.
\<close>

fun first_tags :: "jsval list \<Rightarrow> jsval list" where
  "first_tags [] = []"
| "first_tags (JArr xs # cs) = xs"
| "first_tags (JObj kvs # cs) = object_keys kvs"
| "first_tags (c # cs) = first_tags cs"

definition probes :: "jsval \<Rightarrow> jsval list" where
  "probes obj =
     [get_prop obj ''Tags'', get_prop obj ''TagSet'', get_prop obj ''TagList'',
      get_prop obj ''ResourceTags'', opt_chain (get_prop obj ''Tags'') ''TagSet'']"

definition extractTags :: "jsval \<Rightarrow> jsval list" where
  "extractTags obj =
     (if \<not> truthy obj then [] else first_tags (filter truthy (probes obj)))"

text \<open>\<^verbatim>\<open>const hasNoTags = (obj) => { const tags = extractTags(obj);
  return !tags || tags.length === 0; }\<close>; an array is never falsy.\<close>

definition hasNoTags :: "jsval \<Rightarrow> bool" where
  "hasNoTags obj = (length (extractTags obj) = 0)"

text \<open>
  The classifier as the specification words it: take the first candidate that is
  non-empty/non-null, then decide by its type (a sequence as it is, a keyed mapping as its
  keys, anything else as the empty sequence).
\<close>

definition extractTags_spec :: "jsval \<Rightarrow> jsval list" where
  "extractTags_spec obj =
     (case find truthy (probes obj) of
        None \<Rightarrow> []
      | Some (JArr xs) \<Rightarrow> xs
      | Some (JObj kvs) \<Rightarrow> object_keys kvs
      | Some other \<Rightarrow> [])"

text \<open>A candidate that the loop of \<open>extractTags\<close> returns from: a sequence or a keyed
  mapping.\<close>

fun is_container :: "jsval \<Rightarrow> bool" where
  "is_container (JArr xs) = True"
| "is_container (JObj kvs) = True"
| "is_container v = False"

definition container_items :: "jsval \<Rightarrow> jsval list" where
  "container_items c = (case c of JArr xs \<Rightarrow> xs | JObj kvs \<Rightarrow> object_keys kvs | other \<Rightarrow> [])"

section \<open>Promises and timeouts\<close>

text \<open>
  An asynchronous call either settles after some number of milliseconds, with an error
  (rejection) or a value, or never settles. \<open>None\<close> is the promise that never settles.
\<close>

datatype error = Timeout string | Failure string

type_synonym 'a promise = "(nat \<times> (error + 'a)) option"

text \<open>
  \<^verbatim>\<open>
  function withTimeout(promise, ms, tag = "op") {
    return Promise.race([promise,
      new Promise((_, rej) => setTimeout(() => rej(new Error(`timeout:${tag}`)), ms))]);
  }
  \<close>
  The race is won by the promise when it settles before the timer fires.
\<close>

definition withTimeout :: "'a promise \<Rightarrow> nat \<Rightarrow> string \<Rightarrow> 'a promise" where
  "withTimeout promise ms tag =
     (case promise of
        None \<Rightarrow> Some (ms, Inl (Timeout tag))
      | Some (t, r) \<Rightarrow> if t < ms then Some (t, r) else Some (ms, Inl (Timeout tag)))"

section \<open>Paginated fetch\<close>

text \<open>
  The pagination helper that is in force in both scripts (\<^verbatim>\<open>index.js\<close>, and the second
  declaration of the extended script, which replaces the first one):
  \<^verbatim>\<open>
  async function pagedFetch(fetchPage, pageSize = 100, startOffset = 0, ...) {
    let offset = startOffset;
    const all = [];
    while (true) {
      const page = await fetchPage({ Offset: offset, Limit: pageSize });
      const items = page.items || [];
      all.push(...items);
      if (items.length < pageSize) break;
      offset += pageSize;
    }
    return all;
  }
  \<close>
  A page fetch is a function of the offset and the limit; its value is the item list of the
  page (\<^verbatim>\<open>page.items || []\<close>). What a run of the helper did is recorded with its result:
  the offsets it requested, in order, and the time it waited.
\<close>

record 'a fetch_run =
  requests :: "nat list"
  elapsed :: nat
  outcome :: "error + 'a list"

partial_function (option) pagedFetch_loop ::
  "(nat \<Rightarrow> nat \<Rightarrow> 'a list promise) \<Rightarrow> nat \<Rightarrow> nat \<Rightarrow> 'a list \<Rightarrow> nat list \<Rightarrow> nat
    \<Rightarrow> 'a fetch_run option"
where
  "pagedFetch_loop fetchPage pageSize offset all reqs waited =
     (case fetchPage offset pageSize of
        None \<Rightarrow> None
      | Some (t, Inl e) \<Rightarrow>
          Some \<lparr>requests = reqs @ [offset], elapsed = waited + t, outcome = Inl e\<rparr>
      | Some (t, Inr items) \<Rightarrow>
          if length items < pageSize
          then Some \<lparr>requests = reqs @ [offset], elapsed = waited + t,
                      outcome = Inr (all @ items)\<rparr>
          else pagedFetch_loop fetchPage pageSize (offset + pageSize) (all @ items)
                 (reqs @ [offset]) (waited + t))"

declare pagedFetch_loop.simps [code]

definition pagedFetch ::
  "(nat \<Rightarrow> nat \<Rightarrow> 'a list promise) \<Rightarrow> nat \<Rightarrow> nat \<Rightarrow> 'a fetch_run option" where
  "pagedFetch fetchPage pageSize startOffset =
     pagedFetch_loop fetchPage pageSize startOffset [] [] 0"

text \<open>The promise returned by the helper.\<close>

definition fetch_promise :: "'a fetch_run option \<Rightarrow> 'a list promise" where
  "fetch_promise r = map_option (\<lambda>run. (elapsed run, outcome run)) r"



text \<open>A page fetch over a backing sequence: \<^verbatim>\<open>{ items: xs.slice(Offset, Offset + Limit) }\<close>,
  answered at once.\<close>

definition backing_page :: "'a list \<Rightarrow> nat \<Rightarrow> nat \<Rightarrow> 'a list promise" where
  "backing_page xs offset limit = Some (0, Inr (take limit (drop offset xs)))"

text \<open>A backend that answers every request with a full page of the same item.\<close>

definition full_page :: "'a \<Rightarrow> nat \<Rightarrow> nat \<Rightarrow> 'a list promise" where
  "full_page x offset limit = Some (0, Inr (replicate limit x))"

section \<open>Scan records\<close>

text \<open>
  The objects the scanners return and the entry point collects:
  \<^verbatim>\<open>{ service, id, region }\<close>. The identifier is whatever the payload held in the
  identifying field; the region is absent on the objects most scanners return.
\<close>

record item =
  service :: string
  ident :: jsval
  region :: "string option"

text \<open>\<^verbatim>\<open>String(v)\<close>, as the comparator of the sort and the template literal of the CSV
  line apply it.\<close>

definition digit_char :: "nat \<Rightarrow> char" where
  "digit_char d = char_of (48 + d)"

fun dec_digits :: "nat \<Rightarrow> string" where
  "dec_digits n = (if n < 10 then [digit_char n] else dec_digits (n div 10) @ [digit_char (n mod 10)])"

fun join :: "string \<Rightarrow> string list \<Rightarrow> string" where
  "join sep [] = []"
| "join sep [x] = x"
| "join sep (x # y # ys) = x @ sep @ join sep (y # ys)"

fun js_String :: "jsval \<Rightarrow> string" where
  "js_String JUndefined = ''undefined''"
| "js_String JNull = ''null''"
| "js_String (JBool b) = (if b then ''true'' else ''false'')"
| "js_String (JNum n) = (if n < 0 then ''-'' @ dec_digits (nat (- n)) else dec_digits (nat n))"
| "js_String (JStr s) = s"
| "js_String (JArr xs) =
     join '','' (map (\<lambda>x. if x = JUndefined \<or> x = JNull then [] else js_String x) xs)"
| "js_String (JObj kvs) = ''[object Object]''"

definition String_opt :: "string option \<Rightarrow> string" where
  "String_opt v = (case v of None \<Rightarrow> ''undefined'' | Some s \<Rightarrow> s)"

section \<open>Result aggregation\<close>

text \<open>
  \<^verbatim>\<open>a.localeCompare(b)\<close> compares the collation keys of the two strings. The collation is
  the runtime's; it is a parameter here: a function \<open>ckey\<close> from strings to keys in a linear
  order.
\<close>

definition localeCompare :: "(string \<Rightarrow> 'k::linorder) \<Rightarrow> string \<Rightarrow> string \<Rightarrow> int" where
  "localeCompare ckey a b = (if ckey a < ckey b then - 1 else if ckey a = ckey b then 0 else 1)"

text \<open>
  \<^verbatim>\<open>
  (a, b) => {
    const r = String(a.region).localeCompare(String(b.region));
    if (r !== 0) return r;
    const s = String(a.service).localeCompare(String(b.service));
    if (s !== 0) return s;
    return String(a.id).localeCompare(String(b.id));
  }
  \<close>
\<close>

definition compare_items :: "(string \<Rightarrow> 'k::linorder) \<Rightarrow> item \<Rightarrow> item \<Rightarrow> int" where
  "compare_items ckey a b =
     (let r = localeCompare ckey (String_opt (region a)) (String_opt (region b)) in
      if r \<noteq> 0 then r
      else let s = localeCompare ckey (service a) (service b) in
        if s \<noteq> 0 then s
        else localeCompare ckey (js_String (ident a)) (js_String (ident b)))"

text \<open>
  \<^verbatim>\<open>Array.prototype.sort\<close> with a comparator is a stable sort: the result is computed
  here by stable insertion, an element going in front of the first element it does not
  exceed.
\<close>

fun insert_by :: "('a \<Rightarrow> 'a \<Rightarrow> int) \<Rightarrow> 'a \<Rightarrow> 'a list \<Rightarrow> 'a list" where
  "insert_by cmp x [] = [x]"
| "insert_by cmp x (y # ys) = (if cmp x y \<le> 0 then x # y # ys else y # insert_by cmp x ys)"

fun array_sort :: "('a \<Rightarrow> 'a \<Rightarrow> int) \<Rightarrow> 'a list \<Rightarrow> 'a list" where
  "array_sort cmp [] = []"
| "array_sort cmp (x # xs) = insert_by cmp x (array_sort cmp xs)"

text \<open>\<^verbatim>\<open>const sortedOutputs = outputs.slice().sort(...)\<close>\<close>

definition sortedOutputs :: "(string \<Rightarrow> 'k::linorder) \<Rightarrow> item list \<Rightarrow> item list" where
  "sortedOutputs ckey outs = array_sort (compare_items ckey) outs"

text \<open>The tuple the comparator orders by, as collation keys.\<close>

definition sort_key :: "(string \<Rightarrow> 'k::linorder) \<Rightarrow> item \<Rightarrow> 'k \<times> 'k \<times> 'k" where
  "sort_key ckey a =
     (ckey (String_opt (region a)), ckey (service a), ckey (js_String (ident a)))"

text \<open>
  The collation of an English-language runtime is the root collation of the Unicode
  locale data. On ASCII, which region codes, unit names and resource identifiers are
  written in, it compares two strings first by the primary weights of their characters,
  and only when all of these agree by case, lower case first. The primary weight of a
  character is its place in the sequence below: white space, punctuation, symbols, the
  currency sign, digits, letters, the two cases of a letter in one place. The other
  control characters have no weight at all. Characters outside ASCII are beyond this
  model: they are placed after the letters, by code.
\<close>

definition collation_sequence :: string where
  "collation_sequence =
     [CHR 0x09, CHR 0x0A, CHR 0x0B, CHR 0x0C, CHR 0x0D, CHR 0x20]
     @ ''_-,;:!?.'' @ [CHR 0x27, CHR 0x22] @ ''()[]{}@*/'' @ [CHR 0x5C] @ ''&#%''
     @ [CHR 0x60] @ ''^+<=>|~$0123456789abcdefghijklmnopqrstuvwxyz''"

fun index_of :: "'a \<Rightarrow> 'a list \<Rightarrow> nat" where
  "index_of x [] = 0"
| "index_of x (y # ys) = (if x = y then 0 else Suc (index_of x ys))"

definition is_upper :: "char \<Rightarrow> bool" where
  "is_upper c = (65 \<le> (of_char c :: nat) \<and> (of_char c :: nat) \<le> 90)"

definition primary_weight :: "char \<Rightarrow> nat option" where
  "primary_weight c =
     (let n = (of_char c :: nat);
          l = (if is_upper c then char_of (n + 32) else c)
      in if l \<in> set collation_sequence then Some (index_of l collation_sequence)
         else if n < 128 then None
         else Some (length collation_sequence + n))"

definition tertiary_weight :: "char \<Rightarrow> nat" where
  "tertiary_weight c = (if is_upper c then 1 else 0)"

text \<open>The collation key of a string: the primary weights of its characters, then their
  cases. Keys are compared as pairs, the first component first, and each component as a
  list, from the left.\<close>

definition root_collation :: "string \<Rightarrow> nat list \<times> nat list" where
  "root_collation s =
     (let cs = filter (\<lambda>c. primary_weight c \<noteq> None) s
      in (map (\<lambda>c. the (primary_weight c)) cs, map tertiary_weight cs))"

text \<open>
  The ordering the specification names for the sort, lexicographic string ordering:
  strings are compared character by character, by character code.
\<close>

definition lexicographic_spec :: "string \<Rightarrow> nat list" where
  "lexicographic_spec s = map of_char s"

section \<open>CSV export\<close>

text \<open>
  \<^verbatim>\<open>
  async function exportCsvToCos(items, { bucket, region, prefix = "scan" }) {
    if (!ENV_SECRET_ID || !ENV_SECRET_KEY) throw new Error("Missing COS credentials ...");
    ...
    const header = "region,service,id\n";
    const lines = items.map((i) => `${i.region},${i.service},${i.id}`).join("\n");
    const csv = header + lines + (lines ? "\n" : "");
    ...
    await new Promise((resolve, reject) => { cos.putObject({..., Body: csv, ...},
        (err, data) => (err ? reject(err) : resolve(data))); });
  }
  \<close>
  The upload is a parameter: what \<^verbatim>\<open>putObject\<close> answers for a body. The destination and
  the time-stamped key do not enter any result.
\<close>

definition newline :: string where
  "newline = [CHR 0x0A]"

definition csv_line :: "item \<Rightarrow> string" where
  "csv_line i = String_opt (region i) @ '','' @ service i @ '','' @ js_String (ident i)"

definition csv_body :: "item list \<Rightarrow> string" where
  "csv_body items =
     (let lines = join newline (map csv_line items) in
      ''region,service,id'' @ newline @ lines @ (if lines \<noteq> [] then newline else []))"

definition exportCsvToCos :: "bool \<Rightarrow> (string \<Rightarrow> unit promise) \<Rightarrow> item list \<Rightarrow> unit promise" where
  "exportCsvToCos creds putObject items =
     (if \<not> creds then Some (0, Inl (Failure ''Missing COS credentials''))
      else putObject (csv_body items))"

section \<open>Region resolver\<close>

text \<open>\<^verbatim>\<open>Array.from(new Set(regs))\<close>: the elements in the order of their first
  occurrence.\<close>

definition set_add :: "'a \<Rightarrow> 'a list \<Rightarrow> 'a list" where
  "set_add x acc = (if x \<in> set acc then acc else acc @ [x])"

definition dedupe :: "'a list \<Rightarrow> 'a list" where
  "dedupe xs = fold set_add xs []"

text \<open>
  The answer of \<^verbatim>\<open>DescribeRegions\<close>: the \<^verbatim>\<open>RegionSet\<close> field, when present, is a list
  of entries whose \<^verbatim>\<open>Region\<close> field may be missing.
  \<^verbatim>\<open>
  const regs = (res.RegionSet || []).map((r) => r.Region).filter(Boolean);
  return Array.from(new Set(regs));
  \<close>
\<close>

type_synonym describe_regions = "string option list option"

definition region_codes :: "describe_regions \<Rightarrow> string list" where
  "region_codes res =
     dedupe (map the (filter (\<lambda>r. r \<noteq> None \<and> r \<noteq> Some [])
       (case res of None \<Rightarrow> [] | Some rs \<Rightarrow> rs)))"

definition map_promise :: "('a \<Rightarrow> 'b) \<Rightarrow> 'a promise \<Rightarrow> 'b promise" where
  "map_promise f p = map_option (\<lambda>(t, r). (t, map_sum (\<lambda>e. e) f r)) p"

text \<open>\<^verbatim>\<open>index.js\<close>: the region list always comes from one \<^verbatim>\<open>DescribeRegions\<close> call.\<close>

definition listAllRegions :: "describe_regions promise \<Rightarrow> string list promise" where
  "listAllRegions describeRegions = map_promise region_codes describeRegions"

text \<open>
  The extended script reads the override \<^verbatim>\<open>SCAN_REGIONS\<close> first:
  \<^verbatim>\<open>
  if (SCAN_REGIONS && SCAN_REGIONS.trim()) {
    return SCAN_REGIONS.split(",").map(s => s.trim()).filter(Boolean);
  }
  ...
  const res = await withTimeout(client.DescribeRegions({}), parsedRequestTimeout,
                                "DescribeRegions");
  \<close>
\<close>

definition is_space :: "char \<Rightarrow> bool" where
  "is_space c = (c \<in> set [CHR 0x09, CHR 0x0A, CHR 0x0B, CHR 0x0C, CHR 0x0D, CHR 0x20, CHR 0xA0])"

definition trim :: "string \<Rightarrow> string" where
  "trim s = rev (dropWhile is_space (rev (dropWhile is_space s)))"

fun split_commas :: "string \<Rightarrow> string list" where
  "split_commas [] = [[]]"
| "split_commas (c # cs) =
     (if c = CHR '','' then [] # split_commas cs
      else (case split_commas cs of
              [] \<Rightarrow> [[c]]
            | w # ws \<Rightarrow> (c # w) # ws))"

definition listAllRegions_ext ::
  "string option \<Rightarrow> nat \<Rightarrow> describe_regions promise \<Rightarrow> string list promise" where
  "listAllRegions_ext SCAN_REGIONS requestTimeout describeRegions =
     (case SCAN_REGIONS of
        Some s \<Rightarrow>
          if s \<noteq> [] \<and> trim s \<noteq> []
          then Some (0, Inr (filter (\<lambda>r. r \<noteq> []) (map trim (split_commas s))))
          else map_promise region_codes
                 (withTimeout describeRegions requestTimeout ''DescribeRegions'')
      | None \<Rightarrow>
          map_promise region_codes
            (withTimeout describeRegions requestTimeout ''DescribeRegions''))"

section \<open>Worker pools\<close>

text \<open>
  Both scanners run the same loop in several asynchronous workers over one shared cursor:
  \<^verbatim>\<open>
  async function regionWorker() {
    while (rIndex < regions.length) {
      const region = regions[rIndex++];
      const tasks = regionServices.map(async (svcName) => { ... });
      await Promise.all(tasks);
    }
  }
  await Promise.all(Array.from({ length: Math.min(maxRegionConcurrency, regions.length) },
                               () => regionWorker()));
  \<close>
  The runtime is single-threaded: a worker runs without interruption from one
  \<^verbatim>\<open>await\<close> to the next. A worker is therefore either waiting for the tasks of the item
  it claimed (the tasks that have not settled yet are listed), or it has left the loop.
  \<open>claims\<close> records which worker claimed which index, in the order of the claims.
\<close>

datatype wstate = Awaiting nat "nat list" | Exited

record 's pool =
  cursor :: nat
  shared :: 's
  workers :: "wstate list"
  claims :: "(nat \<times> nat) list"

text \<open>What the event loop can run next: a task of a waiting worker settles, or a worker
  whose tasks have all settled resumes after its \<^verbatim>\<open>await\<close>.\<close>

datatype event = Settle nat nat | Resume nat

text \<open>The loop head: test the cursor, claim the next index and start its \<open>k\<close> tasks, or
  leave the loop. Nothing is awaited between the test and the increment.\<close>

definition worker_loop :: "nat \<Rightarrow> nat \<Rightarrow> nat \<Rightarrow> 's pool \<Rightarrow> 's pool" where
  "worker_loop n k w p =
     (if cursor p < n
      then p\<lparr>cursor := cursor p + 1,
             workers := (workers p)[w := Awaiting (cursor p) [0..<k]],
             claims := claims p @ [(w, cursor p)]\<rparr>
      else p\<lparr>workers := (workers p)[w := Exited]\<rparr>)"

text \<open>
  One event. \<open>task i j\<close> is what task \<open>j\<close> of item \<open>i\<close> does to the shared variables when
  it settles (\<open>None\<close>: it never settles). An event that cannot happen in the state leaves it
  unchanged.
\<close>

fun pool_step :: "nat \<Rightarrow> nat \<Rightarrow> (nat \<Rightarrow> nat \<Rightarrow> ('s \<Rightarrow> 's) option) \<Rightarrow> event \<Rightarrow> 's pool \<Rightarrow> 's pool" where
  "pool_step n k task (Settle w j) p =
     (if w < length (workers p)
      then (case workers p ! w of
              Exited \<Rightarrow> p
            | Awaiting i pend \<Rightarrow>
                if j \<in> set pend
                then (case task i j of
                        None \<Rightarrow> p
                      | Some f \<Rightarrow> p\<lparr>shared := f (shared p),
                                     workers := (workers p)[w := Awaiting i (removeAll j pend)]\<rparr>)
                else p)
      else p)"
| "pool_step n k task (Resume w) p =
     (if w < length (workers p)
      then (case workers p ! w of
              Exited \<Rightarrow> p
            | Awaiting i pend \<Rightarrow> if pend = [] then worker_loop n k w p else p)
      else p)"

text \<open>The workers are started one after the other; each runs to its first
  \<^verbatim>\<open>await\<close> before the next one starts.\<close>

definition start_worker :: "nat \<Rightarrow> nat \<Rightarrow> 's pool \<Rightarrow> 's pool" where
  "start_worker n k p = worker_loop n k (length (workers p)) (p\<lparr>workers := workers p @ [Exited]\<rparr>)"

definition pool_init :: "nat \<Rightarrow> nat \<Rightarrow> nat \<Rightarrow> 's \<Rightarrow> 's pool" where
  "pool_init c n k s0 =
     ((start_worker n k) ^^ (min c n)) \<lparr>cursor = 0, shared = s0, workers = [], claims = []\<rparr>"

text \<open>The events that can happen in a state.\<close>

definition worker_events :: "(nat \<Rightarrow> nat \<Rightarrow> ('s \<Rightarrow> 's) option) \<Rightarrow> nat \<Rightarrow> wstate \<Rightarrow> event list" where
  "worker_events task w st =
     (case st of
        Exited \<Rightarrow> []
      | Awaiting i pend \<Rightarrow>
          if pend = [] then [Resume w]
          else map (Settle w) (filter (\<lambda>j. task i j \<noteq> None) pend))"

definition enabled :: "(nat \<Rightarrow> nat \<Rightarrow> ('s \<Rightarrow> 's) option) \<Rightarrow> 's pool \<Rightarrow> event list" where
  "enabled task p =
     concat (map (\<lambda>w. worker_events task w (workers p ! w)) [0..<length (workers p)])"

text \<open>Every event that can happen uses up work that is left: a pending task, a wake-up,
  or an unclaimed item with its tasks.\<close>

fun weight :: "wstate \<Rightarrow> nat" where
  "weight (Awaiting i pend) = Suc (length pend)"
| "weight Exited = 0"

definition pool_measure :: "nat \<Rightarrow> nat \<Rightarrow> 's pool \<Rightarrow> nat" where
  "pool_measure n k p = sum_list (map weight (workers p)) + (n - cursor p) * Suc k"

lemma sum_list_map_update:
  fixes f :: "'a \<Rightarrow> 'b::comm_monoid_add"
  shows "w < length ws \<Longrightarrow>
    sum_list (map f (ws[w := x])) + f (ws ! w) = sum_list (map f ws) + f x"
proof (induction ws arbitrary: w)
  case Nil
  then show ?case by simp
next
  case (Cons a ws)
  show ?case
  proof (cases w)
    case 0
    then show ?thesis by (simp add: ac_simps)
  next
    case (Suc v)
    then have "v < length ws" using Cons.prems by simp
    from Cons.IH [OF this] show ?thesis using Suc by (simp add: ac_simps)
  qed
qed

lemma enabledD:
  assumes "e \<in> set (enabled task p)"
  shows "(\<exists>w i pend j. e = Settle w j \<and> w < length (workers p) \<and> workers p ! w = Awaiting i pend
            \<and> j \<in> set pend \<and> task i j \<noteq> None)
       \<or> (\<exists>w i. e = Resume w \<and> w < length (workers p) \<and> workers p ! w = Awaiting i [])"
proof -
  from assms obtain w where w: "w < length (workers p)"
    and e: "e \<in> set (worker_events task w (workers p ! w))"
    by (auto simp: enabled_def)
  show ?thesis
  proof (cases "workers p ! w")
    case Exited
    with e show ?thesis by (simp add: worker_events_def)
  next
    case (Awaiting i pend)
    show ?thesis
    proof (cases "pend = []")
      case True
      with e Awaiting w show ?thesis by (simp add: worker_events_def)
    next
      case False
      with e Awaiting w show ?thesis by (auto simp: worker_events_def)
    qed
  qed
qed

lemma pool_step_decreases:
  assumes "e \<in> set (enabled task p)"
  shows "pool_measure n k (pool_step n k task e p) < pool_measure n k p"
  using enabledD [OF assms]
proof (elim disjE exE conjE)
  fix w i pend j
  assume e: "e = Settle w j" and w: "w < length (workers p)"
    and st: "workers p ! w = Awaiting i pend" and j: "j \<in> set pend" and t: "task i j \<noteq> None"
  then obtain f where f: "task i j = Some f" by auto
  let ?ws = "(workers p)[w := Awaiting i (removeAll j pend)]"
  have step: "pool_step n k task e p = p\<lparr>shared := f (shared p), workers := ?ws\<rparr>"
    using e w st j f by simp
  have less: "length (removeAll j pend) < length pend"
    using j by (rule length_removeAll_less)
  have "sum_list (map weight ?ws) + weight (workers p ! w)
      = sum_list (map weight (workers p)) + weight (Awaiting i (removeAll j pend))"
    by (rule sum_list_map_update [OF w])
  then have "sum_list (map weight ?ws) + Suc (length pend)
      = sum_list (map weight (workers p)) + Suc (length (removeAll j pend))"
    by (simp add: st)
  with less have "sum_list (map weight ?ws) < sum_list (map weight (workers p))"
    by linarith
  then show ?thesis
    unfolding step pool_measure_def by simp
next
  fix w i
  assume e: "e = Resume w" and w: "w < length (workers p)" and st: "workers p ! w = Awaiting i []"
  have step: "pool_step n k task e p = worker_loop n k w p"
    using e w st by simp
  show ?thesis
  proof (cases "cursor p < n")
    case True
    let ?ws = "(workers p)[w := Awaiting (cursor p) [0..<k]]"
    have "sum_list (map weight ?ws) + weight (workers p ! w)
      = sum_list (map weight (workers p)) + weight (Awaiting (cursor p) [0..<k])"
      by (rule sum_list_map_update [OF w])
    then have a: "sum_list (map weight ?ws) + 1 = sum_list (map weight (workers p)) + Suc k"
      by (simp add: st)
    have b: "(n - cursor p) * Suc k = (n - Suc (cursor p)) * Suc k + Suc k"
      using True by (metis Suc_diff_Suc mult_Suc add.commute)
    have "sum_list (map weight ?ws) + (n - Suc (cursor p)) * Suc k
        < sum_list (map weight (workers p)) + (n - cursor p) * Suc k"
      using a b by linarith
    then show ?thesis
      unfolding step worker_loop_def pool_measure_def using True by simp
  next
    case False
    let ?ws = "(workers p)[w := Exited]"
    have "sum_list (map weight ?ws) + weight (workers p ! w)
      = sum_list (map weight (workers p)) + weight Exited"
      by (rule sum_list_map_update [OF w])
    then have "sum_list (map weight ?ws) + 1 = sum_list (map weight (workers p))"
      by (simp add: st)
    then have "sum_list (map weight ?ws) < sum_list (map weight (workers p))"
      by linarith
    then show ?thesis
      unfolding step worker_loop_def pool_measure_def using False by simp
  qed
qed

text \<open>The event loop runs until nothing can happen any more.\<close>

function drain :: "nat \<Rightarrow> nat \<Rightarrow> (nat \<Rightarrow> nat \<Rightarrow> ('s \<Rightarrow> 's) option) \<Rightarrow> 's pool \<Rightarrow> 's pool" where
  "drain n k task p =
     (case enabled task p of
        [] \<Rightarrow> p
      | e # es \<Rightarrow> drain n k task (pool_step n k task e p))"
  by pat_completeness auto
termination
proof (relation "measure (\<lambda>(n, k, task, p). pool_measure n k p)")
  show "wf (measure (\<lambda>(n, k, task, p). pool_measure n k p))" by simp
next
  fix n k and task :: "nat \<Rightarrow> nat \<Rightarrow> ('s \<Rightarrow> 's) option" and p :: "'s pool" and e es
  assume "enabled task p = e # es"
  then have "e \<in> set (enabled task p)" by simp
  then show "((n, k, task, pool_step n k task e p), (n, k, task, p))
      \<in> measure (\<lambda>(n, k, task, p). pool_measure n k p)"
    by (simp add: pool_step_decreases)
qed

text \<open>
  A run of the pool: the events of the schedule in their order, then whatever is still
  possible. The schedule stands for the order in which the backend answers.
\<close>

definition pool_run ::
  "nat \<Rightarrow> nat \<Rightarrow> nat \<Rightarrow> (nat \<Rightarrow> nat \<Rightarrow> ('s \<Rightarrow> 's) option) \<Rightarrow> event list \<Rightarrow> 's \<Rightarrow> 's pool" where
  "pool_run c n k task sched s0 =
     drain n k task (foldl (\<lambda>p e. pool_step n k task e p) (pool_init c n k s0) sched)"

text \<open>\<^verbatim>\<open>Promise.all\<close> over the workers resolves when every worker has left its loop.\<close>

definition finished :: "'s pool \<Rightarrow> bool" where
  "finished p = list_all (\<lambda>st. st = Exited) (workers p)"

section \<open>Backend\<close>

text \<open>
  Everything outside the script is the backend: the credentials found in the environment,
  and what each call of the SDKs answers. The scanner units whose bodies are not embedded
  one by one are given by what their call \<^verbatim>\<open>fn()\<close> settles to, for a region and a key.
\<close>

record bucket =
  Name :: string
  Location :: string

datatype cos_err = CosErr (err_statusCode: "int option") (err_errorCode: "string option")

record backend =
  creds :: bool
  describeRegions :: "describe_regions promise"
  units :: "string \<Rightarrow> string \<Rightarrow> item list promise"
  describeCcns :: "nat \<Rightarrow> nat \<Rightarrow> jsval list promise"
  getService :: "bucket list promise"
  getBucketTagging :: "bucket \<Rightarrow> (nat \<times> (cos_err + jsval)) option"
  putObject :: "string \<Rightarrow> unit promise"

section \<open>Region-scoped scanners\<close>

text \<open>The keys of the object \<^verbatim>\<open>scannersForRegion(region)\<close> returns in \<^verbatim>\<open>index.js\<close>, and
  the list \<^verbatim>\<open>regionServices\<close> of its entry point.\<close>

definition scanner_keys :: "string list" where
  "scanner_keys =
     [''CVM'', ''CBS'', ''CLB'', ''SCF'', ''TKE'', ''TCR'', ''BANDWIDTH_PACK'', ''VPN'', ''CCN'',
      ''NAT_GATEWAY'', ''EIP'', ''LIGHTHOUSE'', ''CLS'', ''ANTIDDOS'', ''TDMQ_CKAFKA'',
      ''TDMQ_ROCKETMQ'', ''TDMQ_RABBITMQ'', ''TDMQ_PULSAR'', ''CLOUD_FIREWALL'', ''MYSQL'',
      ''MSSQL'', ''POSTGRES'', ''TDSQL'', ''CYNOSDB'', ''REDIS'', ''MONGODB'', ''EMR'',
      ''ELASTICSEARCH'']"

definition regionServices :: "string list" where
  "regionServices =
     [''CVM'', ''CBS'', ''CLB'', ''SCF'', ''TKE'', ''TKE_SERVERLESS'', ''TCR'', ''BANDWIDTH_PACK'',
      ''VPN'', ''CCN'', ''NAT_GATEWAY'', ''EIP'', ''LIGHTHOUSE'', ''CLS'', ''ANTIDDOS'',
      ''TDMQ_CKAFKA'', ''TDMQ_ROCKETMQ'', ''TDMQ_RABBITMQ'', ''TDMQ_PULSAR'', ''CLOUD_FIREWALL'',
      ''MYSQL'', ''MSSQL'', ''POSTGRES'', ''TDSQL'', ''CYNOSDB'', ''REDIS'', ''MONGODB'', ''EMR'',
      ''ELASTICSEARCH'']"

text \<open>\<^verbatim>\<open>items.filter(hasNoTags).map((x) => ({ service, id: x.F, ... }))\<close>. A null item
  passes the filter, and reading its field throws.\<close>

definition nullish :: "jsval \<Rightarrow> bool" where
  "nullish v = (v = JUndefined \<or> v = JNull)"

definition untagged_records ::
  "string \<Rightarrow> string \<Rightarrow> string option \<Rightarrow> jsval list \<Rightarrow> error + item list" where
  "untagged_records svc field rgn items =
     (let kept = filter hasNoTags items in
      if list_ex nullish kept then Inl (Failure ''TypeError'')
      else Inr (map (\<lambda>x. \<lparr>service = svc, ident = get_prop x field, region = rgn\<rparr>) kept))"

definition then_promise :: "'a promise \<Rightarrow> ('a \<Rightarrow> error + 'b) \<Rightarrow> 'b promise" where
  "then_promise p f =
     map_option (\<lambda>(t, r). (t, case r of Inl e \<Rightarrow> Inl e | Inr v \<Rightarrow> f v)) p"

text \<open>
  \<^verbatim>\<open>index.js\<close>:
  \<^verbatim>\<open>
  async CCN() {
    // CCN is global; report only once from the Frankfurt region to avoid duplicates
    if (region !== "eu-frankfurt") return [];
    const client = getClient("vpc", "v20170312", "vpc.tencentcloudapi.com");
    const items = await pagedFetch(async ({ Offset, Limit }) => {
      const res = await client.DescribeCcns({ Offset, Limit });
      return { items: res.CcnSet || res.Ccns || [] };
    });
    return items.filter(hasNoTags).map((x) => ({ service: "CCN", id: x.CcnId }));
  }
  \<close>
\<close>

definition CCN :: "(nat \<Rightarrow> nat \<Rightarrow> jsval list promise) \<Rightarrow> string \<Rightarrow> item list promise" where
  "CCN fetchPage rgn =
     (if rgn \<noteq> ''eu-frankfurt'' then Some (0, Inr [])
      else then_promise (fetch_promise (pagedFetch fetchPage 100 0))
             (untagged_records ''CCN'' ''CcnId'' None))"


text \<open>\<^verbatim>\<open>scan[svcName]\<close> and its call: \<open>None\<close> when the object has no such key.\<close>

definition scannersForRegion :: "backend \<Rightarrow> string \<Rightarrow> string \<Rightarrow> item list promise option" where
  "scannersForRegion b rgn svcName =
     (if svcName \<notin> set scanner_keys then None
      else if svcName = ''CCN'' then Some (CCN (describeCcns b) rgn)
      else Some (units b rgn svcName))"

section \<open>Region workers\<close>

text \<open>
  The variables the tasks share: \<^verbatim>\<open>const outputs = []\<close> and \<^verbatim>\<open>let untaggedCount = 0\<close>.
  One task of a region worker (\<^verbatim>\<open>index.js\<close>):
  \<^verbatim>\<open>
  async (svcName) => {
    const fn = scan[svcName];
    if (!fn) return;
    try {
      const items = await fn();
      for (const it of items) {
        outputs.push({ service: it.service, id: it.id, region });
        untaggedCount++;
      }
    } catch { /* ignore service/region errors to keep scanning */ }
  }
  \<close>
\<close>

record acc =
  outputs :: "item list"
  untagged :: nat

definition push_output :: "string \<Rightarrow> item \<Rightarrow> acc \<Rightarrow> acc" where
  "push_output rgn it st =
     st\<lparr>outputs := outputs st @ [\<lparr>service = service it, ident = ident it, region = Some rgn\<rparr>],
        untagged := untagged st + 1\<rparr>"

definition settle_task :: "string \<Rightarrow> item list promise \<Rightarrow> (acc \<Rightarrow> acc) option" where
  "settle_task rgn fn =
     (case fn of
        None \<Rightarrow> None
      | Some (t, Inl e) \<Rightarrow> Some (\<lambda>st. st)
      | Some (t, Inr items) \<Rightarrow> Some (fold (push_output rgn) items))"

definition region_task :: "backend \<Rightarrow> string \<Rightarrow> string \<Rightarrow> (acc \<Rightarrow> acc) option" where
  "region_task b rgn svcName =
     (case scannersForRegion b rgn svcName of
        None \<Rightarrow> Some (\<lambda>st. st)
      | Some fn \<Rightarrow> settle_task rgn fn)"

definition region_phase :: "backend \<Rightarrow> string list \<Rightarrow> event list \<Rightarrow> acc pool" where
  "region_phase b regions sched =
     pool_run 3 (length regions) (length regionServices)
       (\<lambda>i j. region_task b (regions ! i) (regionServices ! j)) sched
       \<lparr>outputs = [], untagged = 0\<rparr>"

text \<open>
  The task of the extended script bounds the unit and keeps a region the unit set:
  \<^verbatim>\<open>
      const items = await withTimeout(fn(), parsedServiceTimeout, `svc:${svcName}:${region}`);
      for (const it of items) {
        outputs.push({ service: it.service, id: it.id, region: it.region ?? region });
        untaggedCount++;
      }
  \<close>
\<close>

definition push_output_ext :: "string \<Rightarrow> item \<Rightarrow> acc \<Rightarrow> acc" where
  "push_output_ext rgn it st =
     st\<lparr>outputs := outputs st @
          [\<lparr>service = service it, ident = ident it,
            region = Some (case region it of None \<Rightarrow> rgn | Some g \<Rightarrow> g)\<rparr>],
        untagged := untagged st + 1\<rparr>"

definition settle_task_ext ::
  "nat \<Rightarrow> string \<Rightarrow> string \<Rightarrow> item list promise \<Rightarrow> (acc \<Rightarrow> acc) option" where
  "settle_task_ext serviceTimeout rgn svcName fn =
     (case withTimeout fn serviceTimeout (''svc:'' @ svcName @ '':'' @ rgn) of
        None \<Rightarrow> None
      | Some (t, Inl e) \<Rightarrow> Some (\<lambda>st. st)
      | Some (t, Inr items) \<Rightarrow> Some (fold (push_output_ext rgn) items))"

text \<open>The registry of the extended script is a parameter \<open>scan\<close> here (it has more units;
  its \<open>CCN\<close> is \<open>CCN_ext\<close>).\<close>

definition region_task_ext ::
  "nat \<Rightarrow> (string \<Rightarrow> string \<Rightarrow> item list promise option) \<Rightarrow> string \<Rightarrow> string
    \<Rightarrow> (acc \<Rightarrow> acc) option" where
  "region_task_ext serviceTimeout scan rgn svcName =
     (case scan rgn svcName of
        None \<Rightarrow> Some (\<lambda>st. st)
      | Some fn \<Rightarrow> settle_task_ext serviceTimeout rgn svcName fn)"

definition region_phase_ext ::
  "nat \<Rightarrow> nat \<Rightarrow> (string \<Rightarrow> string \<Rightarrow> item list promise option) \<Rightarrow> string list \<Rightarrow> string list
    \<Rightarrow> event list \<Rightarrow> acc pool" where
  "region_phase_ext maxRegionConcurrency serviceTimeout scan services regions sched =
     pool_run maxRegionConcurrency (length regions) (length services)
       (\<lambda>i j. region_task_ext serviceTimeout scan (regions ! i) (services ! j)) sched
       \<lparr>outputs = [], untagged = 0\<rparr>"

section \<open>Global bucket scanner\<close>

text \<open>
  \<^verbatim>\<open>
  const normalizeCosTagSet = (data) => {
    const maybe = data?.TagSet || data?.Tags?.Tag || data?.Tags || [];
    return Array.isArray(maybe) ? maybe : [];
  };
  \<close>
\<close>

definition normalizeCosTagSet :: "jsval \<Rightarrow> jsval list" where
  "normalizeCosTagSet data =
     (let maybe = js_or (opt_chain data ''TagSet'')
                    (js_or (opt_chain (opt_chain data ''Tags'') ''Tag'')
                      (js_or (opt_chain data ''Tags'') (JArr [])))
      in case maybe of JArr xs \<Rightarrow> xs | other \<Rightarrow> [])"

text \<open>\<^verbatim>\<open>String(s).toLowerCase()\<close>; only the letters A to Z matter for the comparison
  below.\<close>

definition to_lower :: "string \<Rightarrow> string" where
  "to_lower s =
     map (\<lambda>c. let n = (of_char c :: nat) in if 65 \<le> n \<and> n \<le> 90 then char_of (n + 32) else c) s"

text \<open>
  The promise around \<^verbatim>\<open>getBucketTagging\<close>:
  \<^verbatim>\<open>
  if (err) {
    // If tagging not set, COS returns 404 or NoSuchTagSet
    if (err?.statusCode === 404 ||
        String(err?.errorCode || "").toLowerCase() === "nosuchtagset") {
      resolve({ TagSet: [] });
    } else { reject(err); }
  } else { resolve(data || { TagSet: [] }); }
  \<close>
\<close>

definition no_tag_set :: "cos_err \<Rightarrow> bool" where
  "no_tag_set err =
     (err_statusCode err = Some 404
      \<or> to_lower (case err_errorCode err of None \<Rightarrow> [] | Some c \<Rightarrow> c) = ''nosuchtagset'')"

definition tagsRes :: "cos_err + jsval \<Rightarrow> error + jsval" where
  "tagsRes answer =
     (case answer of
        Inl err \<Rightarrow>
          if no_tag_set err then Inr (JObj [(''TagSet'', JArr [])])
          else Inl (Failure ''getBucketTagging'')
      | Inr data \<Rightarrow> Inr (js_or data (JObj [(''TagSet'', JArr [])])))"

text \<open>
  What one bucket adds to \<^verbatim>\<open>results\<close> once its answer is there (\<^verbatim>\<open>index.js\<close>):
  \<^verbatim>\<open>
  try {
    const tagsRes = await new Promise(...);
    const tagSet = normalizeCosTagSet(tagsRes);
    if (hasNoTags({ TagSet: tagSet })) {
      results.push({ service: "COS", id: bucket, region });
    }
  } catch { /* ignore errors and continue to next bucket */ }
  \<close>
  with \<^verbatim>\<open>bucket = b.Name\<close> and \<^verbatim>\<open>region = b.Location\<close>. The extended script pushes
  \<^verbatim>\<open>region: "global"\<close> instead.
\<close>

definition bucket_records :: "string option \<Rightarrow> bucket \<Rightarrow> cos_err + jsval \<Rightarrow> item list" where
  "bucket_records sentinel b answer =
     (case tagsRes answer of
        Inl e \<Rightarrow> []
      | Inr res \<Rightarrow>
          if hasNoTags (JObj [(''TagSet'', JArr (normalizeCosTagSet res))])
          then [\<lparr>service = ''COS'', ident = JStr (Name b),
                 region = (case sentinel of None \<Rightarrow> Some (Location b) | Some g \<Rightarrow> Some g)\<rparr>]
          else [])"

definition cos_task ::
  "string option \<Rightarrow> (bucket \<Rightarrow> (nat \<times> (cos_err + jsval)) option) \<Rightarrow> bucket
    \<Rightarrow> (item list \<Rightarrow> item list) option" where
  "cos_task sentinel tagging b =
     (case tagging b of
        None \<Rightarrow> None
      | Some (t, answer) \<Rightarrow> Some (\<lambda>results. results @ bucket_records sentinel b answer))"

text \<open>
  \<^verbatim>\<open>
  async function scanCOS() {
    if (!ENV_SECRET_ID || !ENV_SECRET_KEY) return [];
    ...
    const buckets = await new Promise(... cos.getService ...).then((d) => d.Buckets || []);
    const results = [];
    const concurrency = 5;
    let i = 0;
    async function worker() { while (i < buckets.length) { const idx = i++; ... } }
    await Promise.all(Array.from({ length: Math.min(concurrency, buckets.length) },
                                 () => worker()));
    return results;
  }
  \<close>
  \<open>None\<close>: the call never returns.
\<close>

definition scanCOS_with :: "string option \<Rightarrow> backend \<Rightarrow> event list \<Rightarrow> (error + item list) option" where
  "scanCOS_with sentinel b sched =
     (if \<not> creds b then Some (Inr [])
      else (case getService b of
              None \<Rightarrow> None
            | Some (t, Inl e) \<Rightarrow> Some (Inl e)
            | Some (t, Inr buckets) \<Rightarrow>
                let p = pool_run 5 (length buckets) 1
                          (\<lambda>i j. cos_task sentinel (getBucketTagging b) (buckets ! i)) sched []
                in if finished p then Some (Inr (shared p)) else None))"

definition scanCOS :: "backend \<Rightarrow> event list \<Rightarrow> (error + item list) option" where
  "scanCOS b sched = scanCOS_with None b sched"

definition scanCOS_ext :: "backend \<Rightarrow> event list \<Rightarrow> (error + item list) option" where
  "scanCOS_ext b sched = scanCOS_with (Some ''global'') b sched"

section \<open>Entry point\<close>

text \<open>
  \<^verbatim>\<open>
  exports.main_handler = async () => {
    const regions = await listAllRegions();
    ...
    await Promise.all(Array.from({ length: Math.min(maxRegionConcurrency, regions.length) },
                                 () => regionWorker()));
    try {
      const cosItems = await scanCOS();
      for (const it of cosItems) {
        outputs.push({ service: it.service, id: it.id, region: it.region });
        untaggedCount++;
      }
    } catch { /* ignore COS errors */ }
    const sortedOutputs = outputs.slice().sort(...);
    try { await exportCsvToCos(sortedOutputs, {...}); } catch (e) { /* ignore */ }
    return { statusCode: 200,
             body: JSON.stringify({ scannedRegions: regions.length, untaggedCount }) };
  };
  \<close>
  The run is recorded with the summary it returns: the region list, the records collected
  and the sequence handed to the exporter. The two schedules give the order in which the
  backend answers in the region pool and in the bucket pool. \<open>None\<close>: the handler never
  returns; \<open>Some (Inl e)\<close>: it raises \<open>e\<close>.
\<close>

record summary =
  statusCode :: nat
  scannedRegions :: nat
  untaggedCount :: nat

record handler_run =
  resolved :: "string list"
  collected :: "item list"
  exported :: "item list"
  returned :: summary

definition push_cos :: "item \<Rightarrow> acc \<Rightarrow> acc" where
  "push_cos it st =
     st\<lparr>outputs := outputs st @ [\<lparr>service = service it, ident = ident it, region = region it\<rparr>],
        untagged := untagged st + 1\<rparr>"

definition cos_phase :: "error + item list \<Rightarrow> acc \<Rightarrow> acc" where
  "cos_phase r st = (case r of Inl e \<Rightarrow> st | Inr cosItems \<Rightarrow> fold push_cos cosItems st)"

definition main_handler_run ::
  "(string \<Rightarrow> 'k::linorder) \<Rightarrow> backend \<Rightarrow> event list \<Rightarrow> event list
    \<Rightarrow> (error + handler_run) option" where
  "main_handler_run ckey b rsched csched =
     (case listAllRegions (describeRegions b) of
        None \<Rightarrow> None
      | Some (t, Inl e) \<Rightarrow> Some (Inl e)
      | Some (t, Inr regions) \<Rightarrow>
          let p = region_phase b regions rsched in
          if \<not> finished p then None
          else (case scanCOS b csched of
                  None \<Rightarrow> None
                | Some r \<Rightarrow>
                    let st = cos_phase r (shared p);
                        sorted = sortedOutputs ckey (outputs st)
                    in (case exportCsvToCos (creds b) (putObject b) sorted of
                          None \<Rightarrow> None
                        | Some x \<Rightarrow>
                            Some (Inr \<lparr>resolved = regions, collected = outputs st,
                                       exported = sorted,
                                       returned = \<lparr>statusCode = 200,
                                                    scannedRegions = length regions,
                                                    untaggedCount = untagged st\<rparr>\<rparr>))))"

definition main_handler ::
  "(string \<Rightarrow> 'k::linorder) \<Rightarrow> backend \<Rightarrow> event list \<Rightarrow> event list \<Rightarrow> (error + summary) option" where
  "main_handler ckey b rsched csched =
     map_option (map_sum (\<lambda>e. e) returned) (main_handler_run ckey b rsched csched)"

section \<open>Properties of the tag classifier\<close>

lemma first_tags_filter:
  "first_tags (filter truthy cs) =
     (case find is_container cs of None \<Rightarrow> [] | Some c \<Rightarrow> container_items c)"
proof (induction cs)
  case Nil
  then show ?case by simp
next
  case (Cons c cs)
  then show ?case by (cases c) (simp_all add: container_items_def)
qed

lemma probes_falsy: "\<not> truthy obj \<Longrightarrow> find is_container (probes obj) = None"
  by (cases obj) (simp_all add: probes_def)


text \<open>
  C3, as stated: \<open>extractTags\<close> returns the first probed candidate that is
  non-empty/non-null, as it is when it is a sequence, as its keys when it is a keyed
  mapping, and as the empty sequence otherwise. The code differs from that reading when
  the first such candidate is neither a sequence nor a mapping: for
  \<^verbatim>\<open>{Tags: "prod", TagSet: ["a"]}\<close> the first non-empty candidate is the string
  \<^verbatim>\<open>"prod"\<close>, for which the statement gives the empty sequence, while the loop of the
  code goes on to the next candidate and returns \<^verbatim>\<open>["a"]\<close>.
\<close>

theorem extractTags_first_candidate_counterexample:
  "extractTags (JObj [(''Tags'', JStr ''prod''), (''TagSet'', JArr [JStr ''a''])]) = [JStr ''a'']
   \<and> extractTags_spec (JObj [(''Tags'', JStr ''prod''), (''TagSet'', JArr [JStr ''a''])]) = []"
  by (simp add: extractTags_def extractTags_spec_def probes_def)


text \<open>
  C3, amended: for every payload, \<open>extractTags\<close> returns the first candidate among the
  ordered probe fields (Tags, TagSet, TagList, ResourceTags, Tags.TagSet) that is a
  sequence or a keyed mapping (an empty one included; candidates of any other type are
  skipped), as it is when it is a sequence and as its key sequence when it is a mapping,
  and the empty sequence when there is no such candidate. In particular
  \<^verbatim>\<open>extractTags({Tags: {a:1}}) = ["a"]\<close> and \<^verbatim>\<open>extractTags({}) = []\<close>.
\<close>

theorem extractTags_first_container:
  "extractTags obj =
     (case find is_container (probes obj) of None \<Rightarrow> [] | Some c \<Rightarrow> container_items c)
   \<and> extractTags (JObj [(''Tags'', JObj [(''a'', JNum 1)])]) = [JStr ''a'']
   \<and> extractTags (JObj []) = []"
proof (intro conjI)
  show "extractTags obj =
     (case find is_container (probes obj) of None \<Rightarrow> [] | Some c \<Rightarrow> container_items c)"
  proof (cases "truthy obj")
    case True
    then show ?thesis by (simp add: extractTags_def first_tags_filter)
  next
    case False
    then show ?thesis by (simp add: extractTags_def probes_falsy)
  qed
  show "extractTags (JObj [(''Tags'', JObj [(''a'', JNum 1)])]) = [JStr ''a'']"
    by (simp add: extractTags_def probes_def object_keys_def)
  show "extractTags (JObj []) = []"
    by (simp add: extractTags_def probes_def)
qed


section \<open>Properties of the paginated fetch\<close>

text \<open>A backend whose every page is full keeps the loop running: the helper never
  returns.\<close>

lemma pagedFetch_loop_full_pages:
  assumes full: "\<And>off. \<exists>t items. fetchPage off ps = Some (t, Inr items) \<and> length items = ps"
  shows "pagedFetch_loop fetchPage ps off all reqs waited = None"
proof (cases "pagedFetch_loop fetchPage ps off all reqs waited")
  case None
  then show ?thesis .
next
  case (Some y)
  have "fetchPage = fetchPage \<and> ps = ps \<longrightarrow> False"
  proof (rule pagedFetch_loop.raw_induct
      [where P = "\<lambda>f p off all reqs waited y. f = fetchPage \<and> p = ps \<longrightarrow> False", OF _ Some])
    fix loop f p off' all' reqs' waited' y'
    assume IH: "\<And>f p off all reqs waited y. loop f p off all reqs waited = Some y
        \<Longrightarrow> f = fetchPage \<and> p = ps \<longrightarrow> False"
      and step: "(case f off' p of None \<Rightarrow> None
        | Some (t, Inl e) \<Rightarrow> Some \<lparr>requests = reqs' @ [off'], elapsed = waited' + t, outcome = Inl e\<rparr>
        | Some (t, Inr items) \<Rightarrow>
            if length items < p
            then Some \<lparr>requests = reqs' @ [off'], elapsed = waited' + t, outcome = Inr (all' @ items)\<rparr>
            else loop f p (off' + p) (all' @ items) (reqs' @ [off']) (waited' + t)) = Some y'"
    show "f = fetchPage \<and> p = ps \<longrightarrow> False"
    proof
      assume fp: "f = fetchPage \<and> p = ps"
      obtain t items where pg: "fetchPage off' ps = Some (t, Inr items)" "length items = ps"
        using full by blast
      from step fp pg
      have "loop fetchPage ps (off' + ps) (all' @ items) (reqs' @ [off']) (waited' + t) = Some y'"
        by simp
      from IH [OF this] show False by simp
    qed
  qed
  then show ?thesis by simp
qed

text \<open>Over a backing sequence the helper stops at the first short page, which is the
  page after the last full one.\<close>

lemma upt_0_Suc_map: "map f [0..<Suc m] = f 0 # map (\<lambda>k. f (Suc k)) [0..<m]"
proof -
  have "[0..<Suc m] = 0 # map Suc [0..<m]"
    by (simp add: upt_conv_Cons map_Suc_upt del: upt_Suc)
  then show ?thesis by (simp add: comp_def)
qed

lemma pagedFetch_loop_backing:
  assumes ps: "0 < ps"
  shows "off \<le> length xs \<Longrightarrow>
    pagedFetch_loop (backing_page xs) ps off all reqs waited =
      Some \<lparr>requests = reqs @ map (\<lambda>k. off + k * ps) [0..<Suc ((length xs - off) div ps)],
            elapsed = waited, outcome = Inr (all @ drop off xs)\<rparr>"
proof (induction "length xs - off" arbitrary: off all reqs rule: less_induct)
  case less
  let ?page = "take ps (drop off xs)"
  show ?case
  proof (cases "length xs - off < ps")
    case True
    then have short: "length ?page < ps" by simp
    have "?page = drop off xs" using True by simp
    moreover have "(length xs - off) div ps = 0" using True by simp
    ultimately show ?thesis
      using short by (subst pagedFetch_loop.simps) (simp add: backing_page_def)
  next
    case False
    then have full: "length ?page = ps" by simp
    have le: "off + ps \<le> length xs" using False less.prems by simp
    have lt: "length xs - (off + ps) < length xs - off" using ps le by simp
    have d: "(length xs - off) div ps = Suc ((length xs - (off + ps)) div ps)"
    proof -
      have "length xs - off = (length xs - (off + ps)) + ps" using le by simp
      then show ?thesis using ps by (metis div_add_self2 Suc_eq_plus1 less_numeral_extra(3))
    qed
    have "pagedFetch_loop (backing_page xs) ps off all reqs waited =
        pagedFetch_loop (backing_page xs) ps (off + ps) (all @ ?page) (reqs @ [off]) waited"
      using full by (subst pagedFetch_loop.simps) (simp add: backing_page_def)
    also have "\<dots> = Some \<lparr>requests = (reqs @ [off]) @
          map (\<lambda>k. off + ps + k * ps) [0..<Suc ((length xs - (off + ps)) div ps)],
        elapsed = waited, outcome = Inr ((all @ ?page) @ drop (off + ps) xs)\<rparr>"
      by (rule less.hyps [OF lt le])
    also have "(all @ ?page) @ drop (off + ps) xs = all @ drop off xs"
      by (simp add: add.commute [of off ps] flip: drop_drop)
    also have "(reqs @ [off]) @ map (\<lambda>k. off + ps + k * ps) [0..<Suc ((length xs - (off + ps)) div ps)]
        = reqs @ map (\<lambda>k. off + k * ps) [0..<Suc ((length xs - off) div ps)]"
      unfolding d by (subst (2) upt_0_Suc_map) (simp add: ac_simps)
    finally show ?thesis .
  qed
qed

lemma pagedFetch_backing:
  "0 < ps \<Longrightarrow> pagedFetch (backing_page xs) ps 0 =
      Some \<lparr>requests = map (\<lambda>k. k * ps) [0..<Suc (length xs div ps)],
            elapsed = 0, outcome = Inr xs\<rparr>"
  using pagedFetch_loop_backing [of ps 0 xs "[]" "[]" 0] by (simp add: pagedFetch_def)


lemma pagedFetch_full_page: "pagedFetch (full_page x) ps start = None"
  unfolding pagedFetch_def
  by (rule pagedFetch_loop_full_pages) (simp add: full_page_def)

text \<open>
  C1, as stated: when every page returns exactly \<open>pageSize\<close> items, the helper stops after
  the configured maximum page count, and over a backing sequence of exactly
  \<open>pageSize \<times> maxPages\<close> items it makes at most \<open>maxPages\<close> page calls. The helper that is in
  force has no page count: against a backend whose pages are always full it never returns,
  and over four items with page size 2 (two full pages) it makes three page calls.
\<close>

theorem pagedFetch_page_cap_counterexample:
  "pagedFetch (full_page JNull) 2 0 = None
   \<and> pagedFetch (backing_page [JNum 1, JNum 2, JNum 3, JNum 4]) 2 0 =
       Some \<lparr>requests = [0, 2, 4], elapsed = 0,
             outcome = Inr [JNum 1, JNum 2, JNum 3, JNum 4]\<rparr>"
proof
  show "pagedFetch (full_page JNull) 2 0 = None"
    by (rule pagedFetch_full_page)
  show "pagedFetch (backing_page [JNum 1, JNum 2, JNum 3, JNum 4]) 2 0 =
       Some \<lparr>requests = [0, 2, 4], elapsed = 0,
             outcome = Inr [JNum 1, JNum 2, JNum 3, JNum 4]\<rparr>"
    by (simp add: pagedFetch_def pagedFetch_loop.simps backing_page_def)
qed

text \<open>
  C1, amended: \<open>pagedFetch\<close> has no maximum page count; it stops issuing page requests
  only when a page returns fewer than \<open>pageSize\<close> items (or a page fetch fails). For every
  page-fetch operation whose every page returns exactly \<open>pageSize\<close> items it never returns;
  with a backing sequence of exactly \<open>pageSize \<times> maxPages\<close> items (\<open>pageSize > 0\<close>) it
  performs \<open>maxPages + 1\<close> page calls, at the offsets \<open>0, pageSize, \<dots>, pageSize \<times> maxPages\<close>,
  and returns all the items.
\<close>

theorem pagedFetch_no_page_cap:
  "((\<forall>off. \<exists>t items. fetchPage off pageSize = Some (t, Inr items) \<and> length items = pageSize)
      \<longrightarrow> pagedFetch fetchPage pageSize start = None)
   \<and> (0 < pageSize \<and> length xs = pageSize * maxPages
      \<longrightarrow> pagedFetch (backing_page xs) pageSize 0 =
            Some \<lparr>requests = map (\<lambda>k. k * pageSize) [0..<Suc maxPages], elapsed = 0,
                  outcome = Inr xs\<rparr>)"
proof (intro conjI impI)
  assume "\<forall>off. \<exists>t items. fetchPage off pageSize = Some (t, Inr items) \<and> length items = pageSize"
  then show "pagedFetch fetchPage pageSize start = None"
    unfolding pagedFetch_def by (intro pagedFetch_loop_full_pages) blast
next
  assume a: "0 < pageSize \<and> length xs = pageSize * maxPages"
  then have "length xs div pageSize = maxPages" by simp
  with a pagedFetch_backing [of pageSize xs]
  show "pagedFetch (backing_page xs) pageSize 0 =
      Some \<lparr>requests = map (\<lambda>k. k * pageSize) [0..<Suc maxPages], elapsed = 0, outcome = Inr xs\<rparr>"
    by simp
qed

theorem pagedFetch_no_page_cap_witness:
  "pagedFetch (full_page (JStr ''x'')) 100 0 = None
   \<and> pagedFetch (backing_page [JStr ''a'', JStr ''b'', JStr ''c'']) 1 0 =
       Some \<lparr>requests = [0, 1, 2, 3], elapsed = 0,
             outcome = Inr [JStr ''a'', JStr ''b'', JStr ''c'']\<rparr>"
proof -
  have full: "\<forall>off. \<exists>t items. full_page (JStr ''x'') off 100 = Some (t, Inr items) \<and> length items = 100"
    by (simp add: full_page_def)
  have len: "0 < (1::nat) \<and> length [JStr ''a'', JStr ''b'', JStr ''c''] = 1 * 3"
    by simp
  note never = pagedFetch_no_page_cap [of "full_page (JStr ''x'')" 100 0, THEN conjunct1]
  note three = pagedFetch_no_page_cap
    [of _ 1 _ "[JStr ''a'', JStr ''b'', JStr ''c'']" 3, THEN conjunct2]
  have up: "[0..<4] = [0, Suc 0, 2, 3]"
    by (simp add: upt_conv_Cons)
  from never full three len
  show ?thesis by (simp add: up)
qed

section \<open>Properties of the worker pool\<close>

lemma drain_Nil: "enabled task p = [] \<Longrightarrow> drain n k task p = p"
  by simp

lemma drain_Cons:
  "enabled task p = e # es \<Longrightarrow> drain n k task p = drain n k task (pool_step n k task e p)"
  by simp

declare drain.simps [simp del]

text \<open>
  What holds of the pool at every moment: the indices claimed so far are \<open>0, 1, \<dots>\<close> up to
  the cursor, in this order; the cursor does not pass the end of the work list; a waiting
  worker holds an index below the cursor; a worker leaves only when the cursor is at the
  end.
\<close>

definition worker_ok :: "nat \<Rightarrow> nat \<Rightarrow> nat \<Rightarrow> wstate \<Rightarrow> bool" where
  "worker_ok n k cur st =
     (case st of
        Awaiting i pend \<Rightarrow> i < cur \<and> set pend \<subseteq> {0..<k} \<and> distinct pend
      | Exited \<Rightarrow> n \<le> cur)"

definition pool_inv :: "nat \<Rightarrow> nat \<Rightarrow> 's pool \<Rightarrow> bool" where
  "pool_inv n k p =
     (map snd (claims p) = [0..<cursor p] \<and> cursor p \<le> n
      \<and> list_all (worker_ok n k (cursor p)) (workers p))"

lemma worker_ok_mono:
  "worker_ok n k cur st \<Longrightarrow> cur \<le> cur' \<Longrightarrow> worker_ok n k cur' st"
  by (auto simp: worker_ok_def split: wstate.splits)

lemma list_all_update:
  "list_all P xs \<Longrightarrow> P x \<Longrightarrow> list_all P (xs[w := x])"
  by (auto simp: list_all_iff dest: subsetD [OF set_update_subset_insert])

lemma pool_inv_worker_loop:
  assumes "pool_inv n k p"
  shows "pool_inv n k (worker_loop n k w p)"
proof (cases "cursor p < n")
  case True
  have ok: "list_all (worker_ok n k (Suc (cursor p))) (workers p)"
    using assms by (auto simp: pool_inv_def list_all_iff intro: worker_ok_mono)
  have new: "worker_ok n k (Suc (cursor p)) (Awaiting (cursor p) [0..<k])"
    by (simp add: worker_ok_def)
  show ?thesis
    using assms True list_all_update [OF ok new]
    by (simp add: pool_inv_def worker_loop_def)
next
  case False
  have new: "worker_ok n k (cursor p) Exited"
    using False by (simp add: worker_ok_def)
  have ok: "list_all (worker_ok n k (cursor p)) (workers p)"
    using assms by (simp add: pool_inv_def)
  have upd: "list_all (worker_ok n k (cursor p)) ((workers p)[w := Exited])"
    by (rule list_all_update [OF ok new])
  have wl: "worker_loop n k w p = p\<lparr>workers := (workers p)[w := Exited]\<rparr>"
    using False by (simp add: worker_loop_def)
  show ?thesis
    using assms upd unfolding wl pool_inv_def by simp
qed

lemma pool_inv_start_worker:
  assumes "pool_inv n k p"
  shows "pool_inv n k (start_worker n k p)"
proof (cases "cursor p < n")
  case True
  have ok: "list_all (worker_ok n k (Suc (cursor p))) (workers p)"
    using assms by (auto simp: pool_inv_def list_all_iff intro: worker_ok_mono)
  show ?thesis
    using assms True ok
    by (simp add: pool_inv_def start_worker_def worker_loop_def worker_ok_def)
next
  case False
  have st: "start_worker n k p = p\<lparr>workers := workers p @ [Exited]\<rparr>"
    using False by (simp add: start_worker_def worker_loop_def)
  have "worker_ok n k (cursor p) Exited"
    using False by (simp add: worker_ok_def)
  then show ?thesis
    using assms unfolding st pool_inv_def by simp
qed

lemma pool_inv_init: "pool_inv n k (pool_init c n k s0)"
proof -
  have "pool_inv n k ((start_worker n k ^^ m) \<lparr>cursor = 0, shared = s0, workers = [], claims = []\<rparr>)"
    for m
    by (induction m) (simp_all add: pool_inv_def pool_inv_start_worker [unfolded pool_inv_def])
  then show ?thesis by (simp add: pool_init_def)
qed

lemma pool_inv_step:
  assumes "pool_inv n k p"
  shows "pool_inv n k (pool_step n k task e p)"
proof (cases e)
  case (Settle w j)
  show ?thesis
  proof (cases "w < length (workers p)")
    case False
    with Settle assms show ?thesis by simp
  next
    case True
    show ?thesis
    proof (cases "workers p ! w")
      case Exited
      with Settle True assms show ?thesis by simp
    next
      case (Awaiting i pend)
      have "worker_ok n k (cursor p) (workers p ! w)"
        using assms True by (simp add: pool_inv_def list_all_length)
      then have new: "worker_ok n k (cursor p) (Awaiting i (removeAll j pend))"
        using Awaiting by (auto simp: worker_ok_def distinct_removeAll)
      have "list_all (worker_ok n k (cursor p)) ((workers p)[w := Awaiting i (removeAll j pend)])"
        using assms
        by (intro list_all_update [where P = "worker_ok n k (cursor p)", OF _ new])
          (simp add: pool_inv_def)
      then show ?thesis
        using Settle True Awaiting assms
        by (cases "task i j") (simp_all add: pool_inv_def)
    qed
  qed
next
  case (Resume w)
  show ?thesis
  proof (cases "w < length (workers p)")
    case False
    with Resume assms show ?thesis by simp
  next
    case True
    show ?thesis
    proof (cases "workers p ! w")
      case Exited
      with Resume True assms show ?thesis by simp
    next
      case (Awaiting i pend)
      with Resume True assms pool_inv_worker_loop [OF assms, of w]
      show ?thesis by simp
    qed
  qed
qed

lemma pool_inv_steps:
  "pool_inv n k p \<Longrightarrow> pool_inv n k (foldl (\<lambda>p e. pool_step n k task e p) p evs)"
  by (induction evs arbitrary: p) (simp_all add: pool_inv_step)

lemma pool_inv_drain: "pool_inv n k p \<Longrightarrow> pool_inv n k (drain n k task p)"
proof (induction n k task p rule: drain.induct)
  case (1 n k task p)
  show ?case
  proof (cases "enabled task p")
    case Nil
    with 1 show ?thesis by (simp add: drain_Nil)
  next
    case (Cons e es)
    with 1 show ?thesis by (simp add: drain_Cons pool_inv_step)
  qed
qed

lemma pool_inv_run: "pool_inv n k (pool_run c n k task sched s0)"
  unfolding pool_run_def by (intro pool_inv_drain pool_inv_steps pool_inv_init)

lemma drain_quiescent: "enabled task (drain n k task p) = []"
proof (induction n k task p rule: drain.induct)
  case (1 n k task p)
  show ?case
  proof (cases "enabled task p")
    case Nil
    then show ?thesis by (simp add: drain_Nil)
  next
    case (Cons e es)
    with 1 show ?thesis by (simp add: drain_Cons)
  qed
qed

lemma length_workers_worker_loop [simp]:
  "length (workers (worker_loop n k w p)) = length (workers p)"
  by (simp add: worker_loop_def)

lemma length_workers_step [simp]:
  "length (workers (pool_step n k task e p)) = length (workers p)"
  by (cases e) (auto split: wstate.splits option.splits)

lemma length_workers_steps [simp]:
  "length (workers (foldl (\<lambda>p e. pool_step n k task e p) p evs)) = length (workers p)"
  by (induction evs arbitrary: p) simp_all

lemma length_workers_drain [simp]:
  "length (workers (drain n k task p)) = length (workers p)"
proof (induction n k task p rule: drain.induct)
  case (1 n k task p)
  show ?case
  proof (cases "enabled task p")
    case Nil
    then show ?thesis by (simp add: drain_Nil)
  next
    case (Cons e es)
    with 1 show ?thesis by (simp add: drain_Cons)
  qed
qed

lemma length_workers_init [simp]: "length (workers (pool_init c n k s0)) = min c n"
proof -
  have "length (workers ((start_worker n k ^^ m) \<lparr>cursor = 0, shared = s0, workers = [], claims = []\<rparr>)) = m"
    for m
    by (induction m) (simp_all add: start_worker_def)
  then show ?thesis by (simp add: pool_init_def)
qed

lemma length_workers_run [simp]:
  "length (workers (pool_run c n k task sched s0)) = min c n"
  by (simp add: pool_run_def)

lemma finished_cursor:
  assumes inv: "pool_inv n k p" and fin: "finished p"
    and len: "workers p = [] \<longrightarrow> n = 0"
  shows "cursor p = n"
proof (cases "workers p")
  case Nil
  with len inv show ?thesis by (simp add: pool_inv_def)
next
  case (Cons st sts)
  with fin have "st = Exited" by (simp add: finished_def)
  with inv Cons have "n \<le> cursor p" by (simp add: pool_inv_def worker_ok_def)
  with inv show ?thesis by (simp add: pool_inv_def)
qed

lemma run_finished_cursor:
  assumes "0 < c" and "finished (pool_run c n k task sched s0)"
  shows "cursor (pool_run c n k task sched s0) = n"
proof (rule finished_cursor [OF pool_inv_run assms(2)])
  show "workers (pool_run c n k task sched s0) = [] \<longrightarrow> n = 0"
  proof
    assume "workers (pool_run c n k task sched s0) = []"
    then have "length (workers (pool_run c n k task sched s0)) = 0" by simp
    with assms(1) show "n = 0" by (simp add: min_def split: if_splits)
  qed
qed

lemma quiescent_finished:
  assumes inv: "pool_inv n k p" and q: "enabled task p = []"
    and settle: "\<And>i j. i < n \<Longrightarrow> j < k \<Longrightarrow> task i j \<noteq> None"
  shows "finished p"
  unfolding finished_def list_all_length
proof (intro allI impI)
  fix w assume w: "w < length (workers p)"
  have none: "worker_events task w (workers p ! w) = []"
  proof -
    have "set (worker_events task w (workers p ! w)) \<subseteq> set (enabled task p)"
      using w by (auto simp: enabled_def)
    with q show ?thesis by simp
  qed
  show "workers p ! w = Exited"
  proof (cases "workers p ! w")
    case Exited
    then show ?thesis .
  next
    case (Awaiting i pend)
    have "worker_ok n k (cursor p) (workers p ! w)"
      using inv w by (simp add: pool_inv_def list_all_length)
    then have ok: "i < cursor p" "set pend \<subseteq> {0..<k}"
      using Awaiting by (simp_all add: worker_ok_def)
    have le: "cursor p \<le> n"
      using inv by (simp add: pool_inv_def)
    show ?thesis
    proof (cases pend)
      case Nil
      with none Awaiting show ?thesis by (simp add: worker_events_def)
    next
      case (Cons j js)
      with ok le have "i < n" "j < k" by auto
      then have "task i j \<noteq> None" by (rule settle)
      with none Awaiting Cons show ?thesis by (simp add: worker_events_def)
    qed
  qed
qed

lemma run_finished:
  assumes "\<And>i j. i < n \<Longrightarrow> j < k \<Longrightarrow> task i j \<noteq> None"
  shows "finished (pool_run c n k task sched s0)"
proof (rule quiescent_finished [OF pool_inv_run _ assms])
  show "enabled task (pool_run c n k task sched s0) = []"
    by (simp add: pool_run_def drain_quiescent)
qed

lemma claims_distinct: "pool_inv n k p \<Longrightarrow> distinct (map snd (claims p))"
  by (simp add: pool_inv_def)

lemma claims_items:
  assumes "pool_inv n k p" and "length xs = n"
  shows "map (\<lambda>c. xs ! snd c) (claims p) = take (cursor p) xs"
proof -
  have "map (\<lambda>c. xs ! snd c) (claims p) = map ((!) xs) (map snd (claims p))"
    by (simp add: comp_def)
  also have "\<dots> = map ((!) xs) [0..<cursor p]"
    using assms by (simp add: pool_inv_def)
  also have "\<dots> = take (cursor p) xs"
  proof (rule nth_equalityI)
    show "length (map ((!) xs) [0..<cursor p]) = length (take (cursor p) xs)"
      using assms by (simp add: pool_inv_def)
    show "\<And>i. i < length (map ((!) xs) [0..<cursor p]) \<Longrightarrow>
        map ((!) xs) [0..<cursor p] ! i = take (cursor p) xs ! i"
      by simp
  qed
  finally show ?thesis .
qed

lemma shared_worker_loop [simp]: "shared (worker_loop n k w p) = shared p"
  by (simp add: worker_loop_def)

lemma shared_step_inv:
  assumes "Q (shared p)" and "\<And>i j f s. task i j = Some f \<Longrightarrow> Q s \<Longrightarrow> Q (f s)"
  shows "Q (shared (pool_step n k task e p))"
  using assms by (cases e) (auto split: wstate.splits option.splits)

lemma shared_steps_inv:
  assumes "\<And>i j f s. task i j = Some f \<Longrightarrow> Q s \<Longrightarrow> Q (f s)"
  shows "Q (shared p) \<Longrightarrow> Q (shared (foldl (\<lambda>p e. pool_step n k task e p) p evs))"
proof (induction evs arbitrary: p)
  case Nil
  then show ?case by simp
next
  case (Cons e evs)
  have "Q (shared (pool_step n k task e p))"
    using Cons.prems assms by (rule shared_step_inv)
  from Cons.IH [OF this] show ?case by simp
qed

lemma shared_drain_inv:
  assumes pres: "\<And>i j f s. task i j = Some f \<Longrightarrow> Q s \<Longrightarrow> Q (f s)"
  shows "Q (shared p) \<Longrightarrow> Q (shared (drain n k task p))"
proof (induction "pool_measure n k p" arbitrary: p rule: less_induct)
  case less
  show ?case
  proof (cases "enabled task p")
    case Nil
    with less.prems show ?thesis by (simp add: drain_Nil)
  next
    case (Cons e es)
    then have "e \<in> set (enabled task p)" by simp
    then have lt: "pool_measure n k (pool_step n k task e p) < pool_measure n k p"
      by (rule pool_step_decreases)
    have "Q (shared (pool_step n k task e p))"
      using less.prems pres by (rule shared_step_inv)
    from less.hyps [OF lt this] show ?thesis by (simp add: drain_Cons [OF Cons])
  qed
qed

lemma shared_init [simp]: "shared (pool_init c n k s0) = s0"
proof -
  have "shared ((start_worker n k ^^ m) \<lparr>cursor = 0, shared = s0, workers = [], claims = []\<rparr>) = s0"
    for m
    by (induction m) (simp_all add: start_worker_def)
  then show ?thesis by (simp add: pool_init_def)
qed

lemma shared_run_inv:
  assumes init: "Q s0" and pres: "\<And>i j f s. task i j = Some f \<Longrightarrow> Q s \<Longrightarrow> Q (f s)"
  shows "Q (shared (pool_run c n k task sched s0))"
proof -
  have a: "Q (shared (pool_init c n k s0))" using init by simp
  have b: "Q (shared (foldl (\<lambda>p e. pool_step n k task e p) (pool_init c n k s0) sched))"
  proof (rule shared_steps_inv [where Q = Q and task = task])
    show "\<And>i j f s. task i j = Some f \<Longrightarrow> Q s \<Longrightarrow> Q (f s)" by (rule pres)
    show "Q (shared (pool_init c n k s0))" by (rule a)
  qed
  show ?thesis
    unfolding pool_run_def
  proof (rule shared_drain_inv [where Q = Q and task = task])
    show "\<And>i j f s. task i j = Some f \<Longrightarrow> Q s \<Longrightarrow> Q (f s)" by (rule pres)
    show "Q (shared (foldl (\<lambda>p e. pool_step n k task e p) (pool_init c n k s0) sched))"
      by (rule b)
  qed
qed

section \<open>Properties of the region pool\<close>

text \<open>The region pool of \<^verbatim>\<open>index.js\<close> after the events \<open>evs\<close>: every state the pool passes
  through is of this form.\<close>

definition region_steps :: "backend \<Rightarrow> string list \<Rightarrow> event list \<Rightarrow> acc pool" where
  "region_steps b regions evs =
     foldl (\<lambda>p e. pool_step (length regions) (length regionServices)
                     (\<lambda>i j. region_task b (regions ! i) (regionServices ! j)) e p)
       (pool_init 3 (length regions) (length regionServices) \<lparr>outputs = [], untagged = 0\<rparr>) evs"

text \<open>A sample backend: two regions (one listed twice), a unit that reports one resource
  per region and units that fail, three buckets (no tag set; access denied; tagged), and
  an upload that is refused.\<close>

definition calm_backend :: backend where
  "calm_backend =
     \<lparr>creds = True,
      describeRegions = Some (0, Inr (Some [Some ''r1'', Some ''r2'', Some ''r1''])),
      units = (\<lambda>rgn key. if key = ''CVM''
                 then Some (0, Inr [\<lparr>service = ''CVM'', ident = JStr (''i-'' @ rgn), region = None\<rparr>])
                 else Some (0, Inl (Failure ''unsupported''))),
      describeCcns = (\<lambda>offset limit. Some (0, Inr [])),
      getService = Some (0, Inr [\<lparr>Name = ''bare'', Location = ''r2''\<rparr>,
                                 \<lparr>Name = ''locked'', Location = ''r1''\<rparr>,
                                 \<lparr>Name = ''labelled'', Location = ''r1''\<rparr>]),
      getBucketTagging = (\<lambda>bk.
         if Name bk = ''bare'' then Some (0, Inl (CosErr (Some 404) (Some ''NoSuchTagSet'')))
         else if Name bk = ''locked'' then Some (0, Inl (CosErr (Some 403) (Some ''AccessDenied'')))
         else Some (0, Inr (JObj [(''Tags'', JArr [JObj [(''Key'', JStr ''team'')]])]))),
      putObject = (\<lambda>body. Some (0, Inl (Failure ''denied'')))\<rparr>"

lemma dedupe_distinct_aux: "distinct acc \<Longrightarrow> distinct (fold set_add xs acc)"
  by (induction xs arbitrary: acc) (simp_all add: set_add_def)

lemma distinct_dedupe: "distinct (dedupe xs)"
  by (simp add: dedupe_def dedupe_distinct_aux)

lemma distinct_region_codes: "distinct (region_codes res)"
  by (simp add: region_codes_def distinct_dedupe)

lemma listAllRegions_Inr:
  assumes "listAllRegions d = Some (t, Inr regions)"
  shows "\<exists>res. d = Some (t, Inr res) \<and> regions = region_codes res"
proof (cases d)
  case None
  with assms show ?thesis by (simp add: listAllRegions_def map_promise_def)
next
  case (Some tr)
  obtain t' r where tr: "tr = (t', r)" by (cases tr)
  show ?thesis
    using assms Some tr by (cases r) (auto simp: listAllRegions_def map_promise_def)
qed

lemma region_steps_inv:
  "pool_inv (length regions) (length regionServices) (region_steps b regions evs)"
  unfolding region_steps_def by (intro pool_inv_steps pool_inv_init)

lemma distinct_map_nth_take:
  "distinct xs \<Longrightarrow> distinct (take m xs)"
  by simp

text \<open>
  In every state of the region pool no index of the region list is claimed twice and the
  regions claimed so far are the first \<open>cursor\<close> entries of the list, in order: no region
  of a list without duplicates is claimed twice, and \<open>listAllRegions\<close> of \<^verbatim>\<open>index.js\<close>
  returns a list without duplicates. Once every worker has left its loop, the claimed
  regions are the whole list, in the pools of both scripts.
\<close>

lemma region_pool_claims:
  "distinct (map snd (claims (region_steps b regions evs)))
   \<and> map (\<lambda>c. regions ! snd c) (claims (region_steps b regions evs))
       = take (cursor (region_steps b regions evs)) regions
   \<and> (distinct regions
        \<longrightarrow> distinct (map (\<lambda>c. regions ! snd c) (claims (region_steps b regions evs))))
   \<and> (finished (region_phase b regions sched)
        \<longrightarrow> map (\<lambda>c. regions ! snd c) (claims (region_phase b regions sched)) = regions)
   \<and> (0 < conc \<and> finished (region_phase_ext conc timeout scan services regions sched)
        \<longrightarrow> map (\<lambda>c. regions ! snd c)
              (claims (region_phase_ext conc timeout scan services regions sched)) = regions)
   \<and> (listAllRegions (describeRegions b) = Some (t, Inr regions) \<longrightarrow> distinct regions)"
proof (intro conjI impI)
  let ?p = "region_steps b regions evs"
  have inv: "pool_inv (length regions) (length regionServices) ?p"
    by (rule region_steps_inv)
  show "distinct (map snd (claims ?p))"
    using inv by (rule claims_distinct)
  show taken: "map (\<lambda>c. regions ! snd c) (claims ?p) = take (cursor ?p) regions"
    using inv by (rule claims_items) simp
  show "distinct (map (\<lambda>c. regions ! snd c) (claims ?p))" if "distinct regions"
    using that unfolding taken by simp
next
  let ?q = "region_phase b regions sched"
  assume fin: "finished ?q"
  have inv: "pool_inv (length regions) (length regionServices) ?q"
    unfolding region_phase_def by (rule pool_inv_run)
  have "cursor ?q = length regions"
    using fin unfolding region_phase_def by (intro run_finished_cursor) simp_all
  with claims_items [OF inv refl] show "map (\<lambda>c. regions ! snd c) (claims ?q) = regions"
    by simp
next
  let ?q = "region_phase_ext conc timeout scan services regions sched"
  assume a: "0 < conc \<and> finished ?q"
  have inv: "pool_inv (length regions) (length services) ?q"
    unfolding region_phase_ext_def by (rule pool_inv_run)
  have "cursor ?q = length regions"
    using a unfolding region_phase_ext_def by (intro run_finished_cursor) simp_all
  with claims_items [OF inv refl] show "map (\<lambda>c. regions ! snd c) (claims ?q) = regions"
    by simp
next
  assume "listAllRegions (describeRegions b) = Some (t, Inr regions)"
  then show "distinct regions"
    by (auto dest!: listAllRegions_Inr simp: distinct_region_codes)
qed

lemma pagedFetch_empty_page:
  "0 < ps \<Longrightarrow> pagedFetch (\<lambda>offset limit. Some (0, Inr [])) ps 0 =
     Some \<lparr>requests = [0], elapsed = 0, outcome = Inr []\<rparr>"
  by (simp add: pagedFetch_def pagedFetch_loop.simps)

text \<open>The region pool of the extended script after the events \<open>evs\<close>.\<close>

definition region_steps_ext ::
  "nat \<Rightarrow> nat \<Rightarrow> (string \<Rightarrow> string \<Rightarrow> item list promise option) \<Rightarrow> string list \<Rightarrow> string list
    \<Rightarrow> event list \<Rightarrow> acc pool" where
  "region_steps_ext maxRegionConcurrency serviceTimeout scan services regions evs =
     foldl (\<lambda>p e. pool_step (length regions) (length services)
                     (\<lambda>i j. region_task_ext serviceTimeout scan (regions ! i) (services ! j)) e p)
       (pool_init maxRegionConcurrency (length regions) (length services)
          \<lparr>outputs = [], untagged = 0\<rparr>) evs"

lemma override_twice:
  "listAllRegions_ext (Some ''r1,r1'') requestTimeout answer = Some (0, Inr [''r1'', ''r1''])"
  by (simp add: listAllRegions_ext_def trim_def is_space_def)

lemma discovery_twice:
  "listAllRegions_ext None 15000 (Some (0, Inr (Some [Some ''r1'', Some ''r1''])))
     = Some (0, Inr [''r1''])"
  by (simp add: listAllRegions_ext_def withTimeout_def map_promise_def region_codes_def
      dedupe_def set_add_def)

lemma calm_CVM_ext:
  "region_task_ext 20000 (scannersForRegion calm_backend) ''r1'' ''CVM'' =
     Some (fold (push_output_ext ''r1'')
             [\<lparr>service = ''CVM'', ident = JStr ''i-r1'', region = None\<rparr>])"
  by (simp add: region_task_ext_def scannersForRegion_def scanner_keys_def settle_task_ext_def
      withTimeout_def calm_backend_def)

lemma pool_init_two:
  "pool_init 3 (Suc (Suc 0)) (Suc 0) s0 =
     \<lparr>cursor = 2, shared = s0, workers = [Awaiting 0 [0], Awaiting 1 [0]],
      claims = [(0, 0), (1, 1)]\<rparr>"
  by (simp add: pool_init_def start_worker_def worker_loop_def eval_nat_numeral)

lemma pool_init_one:
  "pool_init 3 (Suc 0) (Suc 0) s0 =
     \<lparr>cursor = 1, shared = s0, workers = [Awaiting 0 [0]], claims = [(0, 0)]\<rparr>"
  by (simp add: pool_init_def start_worker_def worker_loop_def)

text \<open>
  C5: for every resolved region list, the concurrent region workers sharing the claim
  cursor never both claim the same region, and the regions processed when all workers
  have exited are the full resolved list, each region exactly once. In the extended
  script the override \<^verbatim>\<open>"r1,r1"\<close> resolves to the list \<^verbatim>\<open>["r1", "r1"]\<close>. The pool starts
  two workers: worker 0 claims the first entry and worker 1 the second, and both wait
  for the unit of \<^verbatim>\<open>r1\<close> at the same time. When both have left the loop, the region has
  been processed twice and its one instance stands twice in the collected records. When
  the same two codes come from the describe-regions call, the resolved list is
  \<^verbatim>\<open>["r1"]\<close>, one worker claims it and the instance is collected once.
\<close>

theorem regionWorker_ext_claims_region_twice:
  "listAllRegions_ext (Some ''r1,r1'') 15000 (describeRegions calm_backend)
     = Some (0, Inr [''r1'', ''r1''])
   \<and> region_steps_ext 3 20000 (scannersForRegion calm_backend) [''CVM''] [''r1'', ''r1''] []
     = \<lparr>cursor = 2, shared = \<lparr>outputs = [], untagged = 0\<rparr>,
        workers = [Awaiting 0 [0], Awaiting 1 [0]], claims = [(0, 0), (1, 1)]\<rparr>
   \<and> region_phase_ext 3 20000 (scannersForRegion calm_backend) [''CVM''] [''r1'', ''r1''] []
     = \<lparr>cursor = 2,
        shared = \<lparr>outputs = [\<lparr>service = ''CVM'', ident = JStr ''i-r1'', region = Some ''r1''\<rparr>,
                             \<lparr>service = ''CVM'', ident = JStr ''i-r1'', region = Some ''r1''\<rparr>],
                  untagged = 2\<rparr>,
        workers = [Exited, Exited], claims = [(0, 0), (1, 1)]\<rparr>
   \<and> map (\<lambda>c. [''r1'', ''r1''] ! snd c)
        (claims (region_phase_ext 3 20000 (scannersForRegion calm_backend) [''CVM'']
           [''r1'', ''r1''] [])) = [''r1'', ''r1'']
   \<and> listAllRegions_ext None 15000 (Some (0, Inr (Some [Some ''r1'', Some ''r1''])))
     = Some (0, Inr [''r1''])
   \<and> region_phase_ext 3 20000 (scannersForRegion calm_backend) [''CVM''] [''r1''] []
     = \<lparr>cursor = 1,
        shared = \<lparr>outputs = [\<lparr>service = ''CVM'', ident = JStr ''i-r1'', region = Some ''r1''\<rparr>],
                  untagged = 1\<rparr>,
        workers = [Exited], claims = [(0, 0)]\<rparr>"
proof -
  have twice: "region_phase_ext 3 20000 (scannersForRegion calm_backend) [''CVM'']
      [''r1'', ''r1''] []
     = \<lparr>cursor = 2,
        shared = \<lparr>outputs = [\<lparr>service = ''CVM'', ident = JStr ''i-r1'', region = Some ''r1''\<rparr>,
                             \<lparr>service = ''CVM'', ident = JStr ''i-r1'', region = Some ''r1''\<rparr>],
                  untagged = 2\<rparr>,
        workers = [Exited, Exited], claims = [(0, 0), (1, 1)]\<rparr>"
    by (simp add: region_phase_ext_def pool_run_def pool_init_two drain.simps enabled_def
        worker_events_def calm_CVM_ext push_output_ext_def worker_loop_def upt_conv_Cons)
  have once: "region_phase_ext 3 20000 (scannersForRegion calm_backend) [''CVM''] [''r1''] []
     = \<lparr>cursor = 1,
        shared = \<lparr>outputs = [\<lparr>service = ''CVM'', ident = JStr ''i-r1'', region = Some ''r1''\<rparr>],
                  untagged = 1\<rparr>,
        workers = [Exited], claims = [(0, 0)]\<rparr>"
    by (simp add: region_phase_ext_def pool_run_def pool_init_one drain.simps enabled_def
        worker_events_def calm_CVM_ext push_output_ext_def worker_loop_def upt_conv_Cons)
  have start: "region_steps_ext 3 20000 (scannersForRegion calm_backend) [''CVM'']
      [''r1'', ''r1''] []
     = \<lparr>cursor = 2, shared = \<lparr>outputs = [], untagged = 0\<rparr>,
        workers = [Awaiting 0 [0], Awaiting 1 [0]], claims = [(0, 0), (1, 1)]\<rparr>"
    by (simp add: region_steps_ext_def pool_init_two)
  show ?thesis
    unfolding twice once start by (simp add: override_twice discovery_twice)
qed

section \<open>Properties of the aggregation\<close>

lemma compare_items_le:
  "compare_items ckey a b \<le> 0 \<longleftrightarrow> sort_key ckey a \<le> sort_key ckey b"
  by (auto simp: compare_items_def localeCompare_def sort_key_def Let_def less_eq_prod_def)

lemma mset_insert_by: "mset (insert_by cmp x xs) = add_mset x (mset xs)"
  by (induction xs) simp_all

lemma mset_array_sort: "mset (array_sort cmp xs) = mset xs"
  by (induction xs) (simp_all add: mset_insert_by)

lemma set_insert_by: "set (insert_by cmp x xs) = insert x (set xs)"
  by (induction xs) auto

lemma sorted_insert_by:
  fixes f :: "'a \<Rightarrow> 'k::linorder"
  assumes le: "\<And>a b. cmp a b \<le> 0 \<longleftrightarrow> f a \<le> f b"
  shows "sorted (map f xs) \<Longrightarrow> sorted (map f (insert_by cmp x xs))"
proof (induction xs)
  case Nil
  then show ?case by simp
next
  case (Cons y ys)
  show ?case
  proof (cases "cmp x y \<le> 0")
    case True
    then have "f x \<le> f y" by (simp add: le)
    with Cons.prems True show ?thesis by auto
  next
    case False
    then have "f y \<le> f x" by (simp add: le)
    with Cons False show ?thesis by (auto simp: set_insert_by)
  qed
qed

lemma sorted_array_sort:
  fixes f :: "'a \<Rightarrow> 'k::linorder"
  assumes le: "\<And>a b. cmp a b \<le> 0 \<longleftrightarrow> f a \<le> f b"
  shows "sorted (map f (array_sort cmp xs))"
  by (induction xs) (simp_all add: sorted_insert_by [of cmp f, OF le])

text \<open>The counter and the record sequence agree.\<close>

definition counted :: "acc \<Rightarrow> bool" where
  "counted st = (untagged st = length (outputs st))"

lemma counted_fold_push: "counted st \<Longrightarrow> counted (fold (push_output rgn) items st)"
  by (induction items arbitrary: st) (simp_all add: counted_def push_output_def)

lemma counted_fold_push_cos: "counted st \<Longrightarrow> counted (fold push_cos items st)"
  by (induction items arbitrary: st) (simp_all add: counted_def push_cos_def)

lemma counted_region_task:
  "region_task b rgn svcName = Some f \<Longrightarrow> counted st \<Longrightarrow> counted (f st)"
  by (auto simp: region_task_def settle_task_def counted_fold_push
      split: option.splits sum.splits prod.splits)

lemma counted_cos_phase: "counted st \<Longrightarrow> counted (cos_phase r st)"
  by (cases r) (simp_all add: cos_phase_def counted_fold_push_cos)

lemma counted_region_steps: "counted (shared (region_steps b regions evs))"
  unfolding region_steps_def
proof (rule shared_steps_inv [where Q = counted])
  show "\<And>i j f s. region_task b (regions ! i) (regionServices ! j) = Some f \<Longrightarrow> counted s \<Longrightarrow> counted (f s)"
    by (rule counted_region_task)
  show "counted (shared (pool_init 3 (length regions) (length regionServices) \<lparr>outputs = [], untagged = 0\<rparr>))"
    by (simp add: counted_def)
qed

lemma counted_region_phase: "counted (shared (region_phase b regions sched))"
  unfolding region_phase_def
proof (rule shared_run_inv [where Q = counted])
  show "counted \<lparr>outputs = [], untagged = 0\<rparr>" by (simp add: counted_def)
  show "\<And>i j f s. region_task b (regions ! i) (regionServices ! j) = Some f \<Longrightarrow> counted s \<Longrightarrow> counted (f s)"
    by (rule counted_region_task)
qed

lemma main_handler_run_InrD:
  assumes "main_handler_run ckey b rsched csched = Some (Inr r)"
  shows "\<exists>t cr. listAllRegions (describeRegions b) = Some (t, Inr (resolved r))
      \<and> finished (region_phase b (resolved r) rsched)
      \<and> scanCOS b csched = Some cr
      \<and> collected r = outputs (cos_phase cr (shared (region_phase b (resolved r) rsched)))
      \<and> untaggedCount (returned r) = untagged (cos_phase cr (shared (region_phase b (resolved r) rsched)))
      \<and> scannedRegions (returned r) = length (resolved r)
      \<and> statusCode (returned r) = 200
      \<and> exported r = sortedOutputs ckey (collected r)"
  using assms
  by (auto simp: main_handler_run_def Let_def split: option.splits sum.splits prod.splits if_splits)

section \<open>What a finished pool has added\<close>

text \<open>
  Accounting for what the tasks add to the shared state, as multisets: what has been added
  so far and what the tasks still pending will add is what the tasks of the claimed items
  add altogether.
\<close>

definition pending_out :: "(nat \<Rightarrow> nat \<Rightarrow> 'r multiset) \<Rightarrow> wstate \<Rightarrow> 'r multiset" where
  "pending_out out st =
     (case st of Awaiting i pend \<Rightarrow> sum_list (map (out i) pend) | Exited \<Rightarrow> {#})"

definition claimed_out :: "(nat \<Rightarrow> nat \<Rightarrow> 'r multiset) \<Rightarrow> nat \<Rightarrow> nat \<Rightarrow> 'r multiset" where
  "claimed_out out k cur = sum_list (map (\<lambda>i. sum_list (map (out i) [0..<k])) [0..<cur])"

definition tally ::
  "('s \<Rightarrow> 'r multiset) \<Rightarrow> (nat \<Rightarrow> nat \<Rightarrow> 'r multiset) \<Rightarrow> nat \<Rightarrow> 'r multiset \<Rightarrow> 's pool \<Rightarrow> bool" where
  "tally g out k base p =
     (g (shared p) + sum_list (map (pending_out out) (workers p))
        = base + claimed_out out k (cursor p))"

lemma sum_list_removeAll:
  fixes f :: "'a \<Rightarrow> 'b::comm_monoid_add"
  shows "distinct xs \<Longrightarrow> j \<in> set xs \<Longrightarrow>
    sum_list (map f (removeAll j xs)) + f j = sum_list (map f xs)"
proof (induction xs)
  case Nil
  then show ?case by simp
next
  case (Cons x xs)
  show ?case
  proof (cases "x = j")
    case True
    with Cons.prems show ?thesis by (simp add: ac_simps)
  next
    case False
    with Cons.prems have d: "distinct xs" and j: "j \<in> set xs" by auto
    have "sum_list (map f (removeAll j (x # xs))) + f j
        = f x + (sum_list (map f (removeAll j xs)) + f j)"
      using False by (simp add: add.assoc)
    also have "\<dots> = f x + sum_list (map f xs)"
      using Cons.IH [OF d j] by simp
    finally show ?thesis by simp
  qed
qed

lemma tally_worker_loop:
  assumes w: "w < length (workers p)" and idle: "pending_out out (workers p ! w) = {#}"
    and t: "tally g out k base p"
  shows "tally g out k base (worker_loop n k w p)"
proof (cases "cursor p < n")
  case True
  let ?new = "Awaiting (cursor p) [0..<k]"
  have "sum_list (map (pending_out out) ((workers p)[w := ?new])) + pending_out out (workers p ! w)
      = sum_list (map (pending_out out) (workers p)) + pending_out out ?new"
    by (rule sum_list_map_update [OF w])
  moreover have "pending_out out ?new = sum_list (map (out (cursor p)) [0..<k])"
    by (simp add: pending_out_def)
  ultimately have "sum_list (map (pending_out out) ((workers p)[w := ?new]))
      = sum_list (map (pending_out out) (workers p)) + sum_list (map (out (cursor p)) [0..<k])"
    by (simp add: idle)
  moreover have "claimed_out out k (Suc (cursor p))
      = claimed_out out k (cursor p) + sum_list (map (out (cursor p)) [0..<k])"
    by (simp add: claimed_out_def)
  ultimately show ?thesis
    using t True by (simp add: tally_def worker_loop_def ac_simps)
next
  case False
  have "sum_list (map (pending_out out) ((workers p)[w := Exited])) + pending_out out (workers p ! w)
      = sum_list (map (pending_out out) (workers p)) + pending_out out Exited"
    by (rule sum_list_map_update [OF w])
  moreover have "pending_out out Exited = {#}"
    by (simp add: pending_out_def)
  ultimately have "sum_list (map (pending_out out) ((workers p)[w := Exited]))
      = sum_list (map (pending_out out) (workers p))"
    by (simp add: idle)
  then show ?thesis
    using t False by (simp add: tally_def worker_loop_def)
qed

lemma tally_start_worker:
  assumes "tally g out k base p"
  shows "tally g out k base (start_worker n k p)"
  unfolding start_worker_def
proof (rule tally_worker_loop)
  show "length (workers p) < length (workers (p\<lparr>workers := workers p @ [Exited]\<rparr>))" by simp
  show "pending_out out (workers (p\<lparr>workers := workers p @ [Exited]\<rparr>) ! length (workers p)) = {#}"
    by (simp add: pending_out_def)
  show "tally g out k base (p\<lparr>workers := workers p @ [Exited]\<rparr>)"
    using assms by (simp add: tally_def pending_out_def)
qed

lemma tally_init: "tally g out k (g s0) (pool_init c n k s0)"
proof -
  have "tally g out k (g s0)
      ((start_worker n k ^^ m) \<lparr>cursor = 0, shared = s0, workers = [], claims = []\<rparr>)" for m
  proof (induction m)
    case 0
    show ?case by (simp add: tally_def claimed_out_def)
  next
    case (Suc m)
    then show ?case by (simp add: tally_start_worker)
  qed
  then show ?thesis by (simp add: pool_init_def)
qed

lemma tally_step:
  assumes adds: "\<And>i j f s. task i j = Some f \<Longrightarrow> g (f s) = g s + out i j"
    and inv: "pool_inv n k p" and t: "tally g out k base p"
  shows "tally g out k base (pool_step n k task e p)"
proof (cases e)
  case (Settle w j)
  show ?thesis
  proof (cases "w < length (workers p)")
    case False
    with Settle t show ?thesis by simp
  next
    case True
    show ?thesis
    proof (cases "workers p ! w")
      case Exited
      with Settle True t show ?thesis by simp
    next
      case (Awaiting i pend)
      show ?thesis
      proof (cases "j \<in> set pend")
        case False
        with Settle True Awaiting t show ?thesis by simp
      next
        case j: True
        show ?thesis
        proof (cases "task i j")
          case None
          with Settle True Awaiting j t show ?thesis by simp
        next
          case (Some f)
          have "worker_ok n k (cursor p) (workers p ! w)"
            using inv True by (simp add: pool_inv_def list_all_length)
          then have d: "distinct pend"
            using Awaiting by (simp add: worker_ok_def)
          let ?new = "Awaiting i (removeAll j pend)"
          let ?S' = "sum_list (map (pending_out out) ((workers p)[w := ?new]))"
          let ?S = "sum_list (map (pending_out out) (workers p))"
          have A: "?S' + pending_out out (workers p ! w) = ?S + pending_out out ?new"
            by (rule sum_list_map_update [OF True])
          have B: "pending_out out ?new + out i j = pending_out out (workers p ! w)"
            using sum_list_removeAll [OF d j, of "out i"] Awaiting by (simp add: pending_out_def)
          have "(?S' + out i j) + pending_out out ?new = ?S' + (pending_out out ?new + out i j)"
            by (simp only: ac_simps)
          also have "\<dots> = ?S + pending_out out ?new"
            unfolding B by (rule A)
          finally have "?S' + out i j = ?S"
            by (simp only: add_right_cancel)
          then have "g (f (shared p)) + sum_list (map (pending_out out) ((workers p)[w := ?new]))
              = g (shared p) + sum_list (map (pending_out out) (workers p))"
            by (simp add: adds [OF Some] ac_simps)
          then show ?thesis
            using Settle True Awaiting j Some t by (simp add: tally_def)
        qed
      qed
    qed
  qed
next
  case (Resume w)
  show ?thesis
  proof (cases "w < length (workers p)")
    case False
    with Resume t show ?thesis by simp
  next
    case True
    show ?thesis
    proof (cases "workers p ! w")
      case Exited
      with Resume True t show ?thesis by simp
    next
      case (Awaiting i pend)
      show ?thesis
      proof (cases "pend = []")
        case False
        with Resume True Awaiting t show ?thesis by simp
      next
        case Nil: True
        have "pending_out out (workers p ! w) = {#}"
          using Awaiting Nil by (simp add: pending_out_def)
        from tally_worker_loop [OF True this t]
        show ?thesis using Resume True Awaiting Nil by simp
      qed
    qed
  qed
qed

lemma tally_steps:
  assumes adds: "\<And>i j f s. task i j = Some f \<Longrightarrow> g (f s) = g s + out i j"
  shows "pool_inv n k p \<Longrightarrow> tally g out k base p \<Longrightarrow>
    tally g out k base (foldl (\<lambda>p e. pool_step n k task e p) p evs)"
proof (induction evs arbitrary: p)
  case Nil
  then show ?case by simp
next
  case (Cons e evs)
  have "tally g out k base (pool_step n k task e p)"
    using adds Cons.prems by (rule tally_step)
  moreover have "pool_inv n k (pool_step n k task e p)"
    using Cons.prems(1) by (rule pool_inv_step)
  ultimately show ?case using Cons.IH by simp
qed

lemma tally_drain:
  assumes adds: "\<And>i j f s. task i j = Some f \<Longrightarrow> g (f s) = g s + out i j"
  shows "pool_inv n k p \<Longrightarrow> tally g out k base p \<Longrightarrow> tally g out k base (drain n k task p)"
proof (induction "pool_measure n k p" arbitrary: p rule: less_induct)
  case less
  show ?case
  proof (cases "enabled task p")
    case Nil
    with less.prems show ?thesis by (simp add: drain_Nil)
  next
    case (Cons e es)
    then have "e \<in> set (enabled task p)" by simp
    then have lt: "pool_measure n k (pool_step n k task e p) < pool_measure n k p"
      by (rule pool_step_decreases)
    have a: "tally g out k base (pool_step n k task e p)"
      using adds less.prems by (rule tally_step)
    have b: "pool_inv n k (pool_step n k task e p)"
      using less.prems(1) by (rule pool_inv_step)
    from less.hyps [OF lt b a] show ?thesis by (simp add: drain_Cons [OF Cons])
  qed
qed

lemma tally_run:
  assumes adds: "\<And>i j f s. task i j = Some f \<Longrightarrow> g (f s) = g s + out i j"
  shows "tally g out k (g s0) (pool_run c n k task sched s0)"
  unfolding pool_run_def
proof (rule tally_drain [where g = g and out = out and task = task])
  show "\<And>i j f s. task i j = Some f \<Longrightarrow> g (f s) = g s + out i j" by (rule adds)
  show "pool_inv n k (foldl (\<lambda>p e. pool_step n k task e p) (pool_init c n k s0) sched)"
    by (intro pool_inv_steps pool_inv_init)
  show "tally g out k (g s0) (foldl (\<lambda>p e. pool_step n k task e p) (pool_init c n k s0) sched)"
  proof (rule tally_steps [where g = g and out = out and task = task])
    show "\<And>i j f s. task i j = Some f \<Longrightarrow> g (f s) = g s + out i j" by (rule adds)
    show "pool_inv n k (pool_init c n k s0)" by (rule pool_inv_init)
    show "tally g out k (g s0) (pool_init c n k s0)" by (rule tally_init)
  qed
qed

lemma sum_list_all_empty:
  "(\<And>x. x \<in> set xs \<Longrightarrow> h x = ({#} :: 'r multiset)) \<Longrightarrow> sum_list (map h xs) = {#}"
  by (induction xs) simp_all

lemma finished_pending:
  assumes "finished p"
  shows "sum_list (map (pending_out out) (workers p)) = {#}"
proof (rule sum_list_all_empty)
  fix st assume "st \<in> set (workers p)"
  with assms have "st = Exited" by (simp add: finished_def list_all_iff)
  then show "pending_out out st = {#}" by (simp add: pending_out_def)
qed

lemma run_finished_total:
  assumes adds: "\<And>i j f s. task i j = Some f \<Longrightarrow> g (f s) = g s + out i j"
    and c: "0 < c" and fin: "finished (pool_run c n k task sched s0)"
  shows "g (shared (pool_run c n k task sched s0)) = g s0 + claimed_out out k n"
proof -
  have "tally g out k (g s0) (pool_run c n k task sched s0)"
    using adds by (rule tally_run)
  moreover have "cursor (pool_run c n k task sched s0) = n"
    using c fin by (rule run_finished_cursor)
  ultimately show ?thesis
    using finished_pending [OF fin, of out] by (simp add: tally_def)
qed

section \<open>Properties of the bucket scanner\<close>

text \<open>The records of one bucket, given what the tagging call answers for it.\<close>

definition bucket_result ::
  "string option \<Rightarrow> (bucket \<Rightarrow> (nat \<times> (cos_err + jsval)) option) \<Rightarrow> bucket \<Rightarrow> item list" where
  "bucket_result sentinel tagging bk =
     (case tagging bk of None \<Rightarrow> [] | Some (t, answer) \<Rightarrow> bucket_records sentinel bk answer)"

lemma cos_task_adds:
  assumes "cos_task sentinel tagging bk = Some f"
  shows "mset (f results) = mset results + mset (bucket_result sentinel tagging bk)"
proof (cases "tagging bk")
  case None
  with assms show ?thesis by (simp add: cos_task_def)
next
  case (Some ta)
  obtain t answer where ta: "ta = (t, answer)" by (cases ta)
  have eq: "cos_task sentinel tagging bk = Some (\<lambda>results. results @ bucket_records sentinel bk answer)"
    using Some ta by (simp add: cos_task_def)
  have "Some f = Some (\<lambda>results. results @ bucket_records sentinel bk answer)"
    by (rule trans [OF sym [OF assms] eq])
  then have f: "f = (\<lambda>results. results @ bucket_records sentinel bk answer)"
    by (simp only: option.inject)
  have "bucket_result sentinel tagging bk = bucket_records sentinel bk answer"
    using Some ta by (simp add: bucket_result_def)
  then show ?thesis unfolding f by simp
qed

lemma claimed_out_single:
  "claimed_out (\<lambda>i j. h (xs ! i)) (Suc 0) (length xs) = sum_list (map h xs)"
proof -
  have "map (\<lambda>i. h (xs ! i)) [0..<length xs] = map h xs"
    by (rule nth_equalityI) simp_all
  then show ?thesis by (simp add: claimed_out_def)
qed

lemma scanCOS_with_result:
  assumes creds: "creds b" and gs: "getService b = Some (t, Inr buckets)"
    and tg: "\<And>bk. bk \<in> set buckets \<Longrightarrow> getBucketTagging b bk \<noteq> None"
  shows "\<exists>results. scanCOS_with sentinel b sched = Some (Inr results)
      \<and> mset results = mset (concat (map (bucket_result sentinel (getBucketTagging b)) buckets))"
proof -
  let ?task = "\<lambda>i j::nat. cos_task sentinel (getBucketTagging b) (buckets ! i)"
  let ?p = "pool_run 5 (length buckets) 1 ?task sched []"
  have fin: "finished ?p"
  proof (rule run_finished)
    fix i j :: nat assume "i < length buckets"
    then have "getBucketTagging b (buckets ! i) \<noteq> None" by (simp add: tg)
    then show "cos_task sentinel (getBucketTagging b) (buckets ! i) \<noteq> None"
      by (auto simp: cos_task_def split: option.splits)
  qed
  have "mset (shared ?p) = mset [] +
      claimed_out (\<lambda>i j. mset (bucket_result sentinel (getBucketTagging b) (buckets ! i))) 1 (length buckets)"
  proof (rule run_finished_total [where g = mset])
    show "\<And>i j f s. ?task i j = Some f \<Longrightarrow>
        mset (f s) = mset s + mset (bucket_result sentinel (getBucketTagging b) (buckets ! i))"
      by (rule cos_task_adds)
    show "(0::nat) < 5" by simp
    show "finished ?p" by (rule fin)
  qed
  also have "claimed_out (\<lambda>i j. mset (bucket_result sentinel (getBucketTagging b) (buckets ! i))) 1
        (length buckets)
      = sum_list (map (\<lambda>bk. mset (bucket_result sentinel (getBucketTagging b) bk)) buckets)"
    using claimed_out_single [where h = "\<lambda>bk. mset (bucket_result sentinel (getBucketTagging b) bk)"
        and xs = buckets]
    by simp
  finally have "mset (shared ?p)
      = mset (concat (map (bucket_result sentinel (getBucketTagging b)) buckets))"
    by (simp add: mset_concat comp_def)
  with fin creds gs show ?thesis
    by (simp add: scanCOS_with_def)
qed

lemma no_tag_set_record:
  "no_tag_set err \<Longrightarrow> bucket_records sentinel bk (Inl err) =
     [\<lparr>service = ''COS'', ident = JStr (Name bk),
       region = (case sentinel of None \<Rightarrow> Some (Location bk) | Some g \<Rightarrow> Some g)\<rparr>]"
  by (simp add: bucket_records_def tagsRes_def normalizeCosTagSet_def js_or_def hasNoTags_def
      extractTags_def probes_def)

lemma other_error_dropped:
  "\<not> no_tag_set err \<Longrightarrow> bucket_records sentinel bk (Inl err) = []"
  by (simp add: bucket_records_def tagsRes_def)

text \<open>Every call of the bucket scanner settles.\<close>

definition cos_settles :: "backend \<Rightarrow> bool" where
  "cos_settles b =
     (creds b \<longrightarrow> getService b \<noteq> None
        \<and> (\<forall>t buckets. getService b = Some (t, Inr buckets)
              \<longrightarrow> (\<forall>bk \<in> set buckets. getBucketTagging b bk \<noteq> None)))"

lemma scanCOS_with_returns:
  assumes "cos_settles b"
  shows "scanCOS_with sentinel b sched \<noteq> None"
proof (cases "creds b")
  case False
  then show ?thesis by (simp add: scanCOS_with_def)
next
  case True
  with assms obtain tr where gs: "getService b = Some tr"
    by (auto simp: cos_settles_def)
  obtain t r where tr: "tr = (t, r)" by (cases tr)
  show ?thesis
  proof (cases r)
    case (Inl e)
    with True gs tr show ?thesis by (simp add: scanCOS_with_def)
  next
    case (Inr buckets)
    have "\<And>bk. bk \<in> set buckets \<Longrightarrow> getBucketTagging b bk \<noteq> None"
      using assms True gs tr Inr by (auto simp: cos_settles_def)
    from scanCOS_with_result [OF True _ this, where t = t and sentinel = sentinel and sched = sched]
      gs tr Inr
    show ?thesis by auto
  qed
qed

section \<open>Properties of the entry point\<close>

text \<open>Every scanner unit called for the regions settles; the upload settles.\<close>

definition units_settle :: "backend \<Rightarrow> string list \<Rightarrow> bool" where
  "units_settle b regions =
     (\<forall>rgn \<in> set regions. \<forall>svcName \<in> set regionServices.
        scannersForRegion b rgn svcName \<noteq> Some None)"

definition export_settles :: "backend \<Rightarrow> bool" where
  "export_settles b = (creds b \<longrightarrow> (\<forall>body. putObject b body \<noteq> None))"

lemma region_task_settles:
  "scannersForRegion b rgn svcName \<noteq> Some None \<Longrightarrow> region_task b rgn svcName \<noteq> None"
  by (auto simp: region_task_def settle_task_def split: option.splits sum.splits prod.splits)

lemma region_phase_finished:
  assumes "units_settle b regions"
  shows "finished (region_phase b regions sched)"
  unfolding region_phase_def
proof (rule run_finished)
  fix i j assume "i < length regions" "j < length regionServices"
  then have "regions ! i \<in> set regions" "regionServices ! j \<in> set regionServices" by simp_all
  with assms have "scannersForRegion b (regions ! i) (regionServices ! j) \<noteq> Some None"
    by (simp add: units_settle_def)
  then show "region_task b (regions ! i) (regionServices ! j) \<noteq> None"
    by (rule region_task_settles)
qed

lemma exportCsvToCos_settles:
  "export_settles b \<Longrightarrow> exportCsvToCos (creds b) (putObject b) items \<noteq> None"
  by (simp add: exportCsvToCos_def export_settles_def)

lemma length_sortedOutputs: "length (sortedOutputs ckey outs) = length outs"
  using mset_array_sort [of "compare_items ckey" outs]
  by (metis sortedOutputs_def size_mset)

lemma main_handler_run_returns:
  assumes regs: "describeRegions b = Some (t, Inr res)"
    and units: "units_settle b (region_codes res)"
    and cos: "cos_settles b"
    and exp: "export_settles b"
  shows "\<exists>r. main_handler_run ckey b rsched csched = Some (Inr r)
      \<and> resolved r = region_codes res
      \<and> returned r = \<lparr>statusCode = 200, scannedRegions = length (region_codes res),
                        untaggedCount = length (collected r)\<rparr>"
proof -
  let ?regions = "region_codes res"
  have la: "listAllRegions (describeRegions b) = Some (t, Inr ?regions)"
    using regs by (simp add: listAllRegions_def map_promise_def)
  have fin: "finished (region_phase b ?regions rsched)"
    using units by (rule region_phase_finished)
  obtain cr where cr: "scanCOS b csched = Some cr"
    using scanCOS_with_returns [OF cos, of None csched] by (auto simp: scanCOS_def)
  let ?st = "cos_phase cr (shared (region_phase b ?regions rsched))"
  obtain x where x: "exportCsvToCos (creds b) (putObject b) (sortedOutputs ckey (outputs ?st)) = Some x"
    using exportCsvToCos_settles [OF exp] by blast
  have "counted ?st"
    by (intro counted_cos_phase counted_region_phase)
  then have n: "untagged ?st = length (outputs ?st)" by (simp add: counted_def)
  show ?thesis
    using la fin cr x n by (simp add: main_handler_run_def Let_def)
qed


lemma to_lower_NoSuchTagSet: "to_lower ''NoSuchTagSet'' = ''nosuchtagset''"
  by code_simp

lemma to_lower_AccessDenied: "to_lower ''AccessDenied'' = ''accessdenied''"
  by code_simp

lemma calm_units: "scannersForRegion calm_backend rgn svcName \<noteq> Some None"
  by (simp add: scannersForRegion_def calm_backend_def CCN_def pagedFetch_empty_page
      fetch_promise_def then_promise_def)

lemma calm_returns:
  "\<exists>r. main_handler_run ckey calm_backend rsched csched = Some (Inr r)
      \<and> resolved r = [''r1'', ''r2'']
      \<and> returned r = \<lparr>statusCode = 200, scannedRegions = 2, untaggedCount = length (collected r)\<rparr>"
proof -
  have codes: "region_codes (Some [Some ''r1'', Some ''r2'', Some ''r1'']) = [''r1'', ''r2'']"
    by (simp add: region_codes_def dedupe_def set_add_def)
  have "\<exists>r. main_handler_run ckey calm_backend rsched csched = Some (Inr r)
      \<and> resolved r = region_codes (Some [Some ''r1'', Some ''r2'', Some ''r1''])
      \<and> returned r = \<lparr>statusCode = 200,
            scannedRegions = length (region_codes (Some [Some ''r1'', Some ''r2'', Some ''r1''])),
            untaggedCount = length (collected r)\<rparr>"
  proof (rule main_handler_run_returns)
    show "describeRegions calm_backend = Some (0, Inr (Some [Some ''r1'', Some ''r2'', Some ''r1'']))"
      by (simp add: calm_backend_def)
    show "units_settle calm_backend (region_codes (Some [Some ''r1'', Some ''r2'', Some ''r1'']))"
      by (simp add: units_settle_def calm_units)
    show "cos_settles calm_backend"
      by (simp add: cos_settles_def calm_backend_def)
    show "export_settles calm_backend"
      by (simp add: export_settles_def calm_backend_def)
  qed
  then show ?thesis by (simp add: codes eval_nat_numeral)
qed

text \<open>The collation keys of the strings of the examples below.\<close>

lemma root_collation_regions:
  "root_collation ''r1'' = ([65, 39], [0, 0]) \<and> root_collation ''r2'' = ([65, 40], [0, 0])
   \<and> root_collation ''us'' = ([68, 66], [0, 0])
   \<and> root_collation ''undefined''
       = ([68, 61, 51, 52, 53, 56, 61, 52, 51], [0, 0, 0, 0, 0, 0, 0, 0, 0])"
  by (intro conjI; code_simp)

lemma root_collation_units:
  "root_collation ''svc'' = ([66, 69, 50], [0, 0, 0])
   \<and> root_collation ''CVM'' = ([50, 69, 60], [1, 1, 1])
   \<and> root_collation ''CLB'' = ([50, 59, 49], [1, 1, 1])"
  by (intro conjI; code_simp)

lemma root_collation_letters:
  "root_collation ''a'' = ([48], [0]) \<and> root_collation ''A'' = ([48], [1])
   \<and> root_collation ''b'' = ([49], [0]) \<and> root_collation ''B'' = ([49], [1])
   \<and> root_collation ''c'' = ([50], [0]) \<and> root_collation ''z'' = ([73], [0])"
  by (intro conjI; code_simp)

lemma root_collation_digits:
  "root_collation ''9'' = ([47], [0]) \<and> root_collation ''10'' = ([39, 38], [0, 0])"
  by (intro conjI; code_simp)

lemma js_String_numbers: "js_String (JNum 9) = ''9'' \<and> js_String (JNum 10) = ''10''"
  by (intro conjI; code_simp)

lemma sorted_wrt_compare_items:
  "sorted_wrt (\<lambda>a b. compare_items ckey a b \<le> 0) xs \<longleftrightarrow> sorted (map (sort_key ckey) xs)"
  by (simp add: sorted_map compare_items_le)

text \<open>
  C6, as stated: the output is sorted by lexicographic string ordering of the fields. The
  comparator compares with \<^verbatim>\<open>localeCompare\<close>, which puts \<^verbatim>\<open>"a"\<close> before \<^verbatim>\<open>"B"\<close>, where
  the ordering by character code puts \<^verbatim>\<open>"B"\<close> first: the output for the two records
  \<open>(r1,svc,B)\<close> and \<open>(r1,svc,a)\<close> is not sorted in the lexicographic ordering.
\<close>

theorem sortedOutputs_lexicographic_counterexample:
  "sortedOutputs root_collation
       [\<lparr>service = ''svc'', ident = JStr ''B'', region = Some ''r1''\<rparr>,
        \<lparr>service = ''svc'', ident = JStr ''a'', region = Some ''r1''\<rparr>]
     = [\<lparr>service = ''svc'', ident = JStr ''a'', region = Some ''r1''\<rparr>,
        \<lparr>service = ''svc'', ident = JStr ''B'', region = Some ''r1''\<rparr>]
   \<and> lexicographic_spec ''B'' < lexicographic_spec ''a''
   \<and> \<not> sorted (map (sort_key lexicographic_spec)
         (sortedOutputs root_collation
            [\<lparr>service = ''svc'', ident = JStr ''B'', region = Some ''r1''\<rparr>,
             \<lparr>service = ''svc'', ident = JStr ''a'', region = Some ''r1''\<rparr>]))"
  by (simp add: sortedOutputs_def compare_items_def localeCompare_def String_opt_def
      root_collation_regions root_collation_units root_collation_letters
      sort_key_def lexicographic_spec_def)

text \<open>
  C6: for every collected record sequence, the aggregated output handed to the exporter is
  sorted ascending by the tuple (region, service, id), the fields taken as strings and
  compared in that priority with \<^verbatim>\<open>localeCompare\<close>, that is by the collation of the runtime
  (in which \<open>a\<close>, \<open>A\<close>, \<open>b\<close>, \<open>B\<close> is ascending) and not by character code; feeding records
  \<open>[(r2,svc,b),(r1,svc,a),(r1,svc,c)]\<close> yields \<open>[(r1,svc,a),(r1,svc,c),(r2,svc,b)]\<close>, and no
  deduplication is applied: the output has the same records with the same multiplicities.
  The general statements hold for every collation; the examples are under the root
  collation: the one of the claim; identifiers that differ in case; a region that
  outranks the unit name and a unit name that outranks the identifier; numeric
  identifiers, which are compared as strings; a record that occurs twice; a record
  without a region, which is compared as \<^verbatim>\<open>"undefined"\<close>.
\<close>

theorem sortedOutputs_sorted_by_tuple:
  "sorted (map (sort_key ckey) (sortedOutputs ckey outs))
   \<and> sorted_wrt (\<lambda>a b. compare_items ckey a b \<le> 0) (sortedOutputs ckey outs)
   \<and> mset (sortedOutputs ckey outs) = mset outs
   \<and> (main_handler_run ckey b rsched csched = Some (Inr r)
        \<longrightarrow> exported r = sortedOutputs ckey (collected r))
   \<and> sortedOutputs root_collation
        [\<lparr>service = ''svc'', ident = JStr ''b'', region = Some ''r2''\<rparr>,
         \<lparr>service = ''svc'', ident = JStr ''a'', region = Some ''r1''\<rparr>,
         \<lparr>service = ''svc'', ident = JStr ''c'', region = Some ''r1''\<rparr>]
       = [\<lparr>service = ''svc'', ident = JStr ''a'', region = Some ''r1''\<rparr>,
          \<lparr>service = ''svc'', ident = JStr ''c'', region = Some ''r1''\<rparr>,
          \<lparr>service = ''svc'', ident = JStr ''b'', region = Some ''r2''\<rparr>]
   \<and> sortedOutputs root_collation
        (map (\<lambda>i. \<lparr>service = ''svc'', ident = JStr i, region = Some ''r1''\<rparr>)
           [''B'', ''a'', ''A'', ''b''])
       = map (\<lambda>i. \<lparr>service = ''svc'', ident = JStr i, region = Some ''r1''\<rparr>)
           [''a'', ''A'', ''b'', ''B'']
   \<and> sortedOutputs root_collation
        [\<lparr>service = ''CLB'', ident = JStr ''a'', region = Some ''r2''\<rparr>,
         \<lparr>service = ''CVM'', ident = JStr ''a'', region = Some ''r1''\<rparr>,
         \<lparr>service = ''CLB'', ident = JStr ''z'', region = Some ''r1''\<rparr>]
       = [\<lparr>service = ''CLB'', ident = JStr ''z'', region = Some ''r1''\<rparr>,
          \<lparr>service = ''CVM'', ident = JStr ''a'', region = Some ''r1''\<rparr>,
          \<lparr>service = ''CLB'', ident = JStr ''a'', region = Some ''r2''\<rparr>]
   \<and> sortedOutputs root_collation
        (map (\<lambda>n. \<lparr>service = ''svc'', ident = JNum n, region = Some ''r1''\<rparr>) [9, 10])
       = map (\<lambda>n. \<lparr>service = ''svc'', ident = JNum n, region = Some ''r1''\<rparr>) [10, 9]
   \<and> sortedOutputs root_collation
        (map (\<lambda>i. \<lparr>service = ''svc'', ident = JStr i, region = Some ''r1''\<rparr>)
           [''c'', ''a'', ''c''])
       = map (\<lambda>i. \<lparr>service = ''svc'', ident = JStr i, region = Some ''r1''\<rparr>)
           [''a'', ''c'', ''c'']
   \<and> sortedOutputs root_collation
        (map (\<lambda>g. \<lparr>service = ''svc'', ident = JStr ''a'', region = g\<rparr>) [Some ''us'', None])
       = map (\<lambda>g. \<lparr>service = ''svc'', ident = JStr ''a'', region = g\<rparr>) [None, Some ''us'']"
proof (intro conjI impI)
  show s: "sorted (map (sort_key ckey) (sortedOutputs ckey outs))"
    unfolding sortedOutputs_def by (rule sorted_array_sort) (rule compare_items_le)
  then show "sorted_wrt (\<lambda>a b. compare_items ckey a b \<le> 0) (sortedOutputs ckey outs)"
    by (simp only: sorted_wrt_compare_items)
  show "mset (sortedOutputs ckey outs) = mset outs"
    by (simp add: sortedOutputs_def mset_array_sort)
  show "exported r = sortedOutputs ckey (collected r)"
    if "main_handler_run ckey b rsched csched = Some (Inr r)"
    using main_handler_run_InrD [OF that] by blast
  show "sortedOutputs root_collation
        [\<lparr>service = ''svc'', ident = JStr ''b'', region = Some ''r2''\<rparr>,
         \<lparr>service = ''svc'', ident = JStr ''a'', region = Some ''r1''\<rparr>,
         \<lparr>service = ''svc'', ident = JStr ''c'', region = Some ''r1''\<rparr>]
       = [\<lparr>service = ''svc'', ident = JStr ''a'', region = Some ''r1''\<rparr>,
          \<lparr>service = ''svc'', ident = JStr ''c'', region = Some ''r1''\<rparr>,
          \<lparr>service = ''svc'', ident = JStr ''b'', region = Some ''r2''\<rparr>]"
    by (simp add: sortedOutputs_def compare_items_def localeCompare_def String_opt_def
        root_collation_regions root_collation_units root_collation_letters)
  show "sortedOutputs root_collation
        (map (\<lambda>i. \<lparr>service = ''svc'', ident = JStr i, region = Some ''r1''\<rparr>)
           [''B'', ''a'', ''A'', ''b''])
       = map (\<lambda>i. \<lparr>service = ''svc'', ident = JStr i, region = Some ''r1''\<rparr>)
           [''a'', ''A'', ''b'', ''B'']"
    by (simp add: sortedOutputs_def compare_items_def localeCompare_def String_opt_def
        root_collation_regions root_collation_units root_collation_letters)
  show "sortedOutputs root_collation
        [\<lparr>service = ''CLB'', ident = JStr ''a'', region = Some ''r2''\<rparr>,
         \<lparr>service = ''CVM'', ident = JStr ''a'', region = Some ''r1''\<rparr>,
         \<lparr>service = ''CLB'', ident = JStr ''z'', region = Some ''r1''\<rparr>]
       = [\<lparr>service = ''CLB'', ident = JStr ''z'', region = Some ''r1''\<rparr>,
          \<lparr>service = ''CVM'', ident = JStr ''a'', region = Some ''r1''\<rparr>,
          \<lparr>service = ''CLB'', ident = JStr ''a'', region = Some ''r2''\<rparr>]"
    by (simp add: sortedOutputs_def compare_items_def localeCompare_def String_opt_def
        root_collation_regions root_collation_units root_collation_letters)
  show "sortedOutputs root_collation
        (map (\<lambda>n. \<lparr>service = ''svc'', ident = JNum n, region = Some ''r1''\<rparr>) [9, 10])
       = map (\<lambda>n. \<lparr>service = ''svc'', ident = JNum n, region = Some ''r1''\<rparr>) [10, 9]"
    by (simp add: sortedOutputs_def compare_items_def localeCompare_def String_opt_def
        root_collation_regions root_collation_units root_collation_digits js_String_numbers
        del: js_String.simps)
  show "sortedOutputs root_collation
        (map (\<lambda>i. \<lparr>service = ''svc'', ident = JStr i, region = Some ''r1''\<rparr>)
           [''c'', ''a'', ''c''])
       = map (\<lambda>i. \<lparr>service = ''svc'', ident = JStr i, region = Some ''r1''\<rparr>)
           [''a'', ''c'', ''c'']"
    by (simp add: sortedOutputs_def compare_items_def localeCompare_def String_opt_def
        root_collation_regions root_collation_units root_collation_letters)
  show "sortedOutputs root_collation
        (map (\<lambda>g. \<lparr>service = ''svc'', ident = JStr ''a'', region = g\<rparr>) [Some ''us'', None])
       = map (\<lambda>g. \<lparr>service = ''svc'', ident = JStr ''a'', region = g\<rparr>) [None, Some ''us'']"
    by (simp add: sortedOutputs_def compare_items_def localeCompare_def String_opt_def
        root_collation_regions root_collation_units root_collation_letters)
qed

theorem sortedOutputs_sorted_by_tuple_witness:
  "\<exists>r. main_handler_run root_collation calm_backend [] [Settle 2 0] = Some (Inr r)
      \<and> exported r = sortedOutputs root_collation (collected r)
      \<and> sorted (map (sort_key root_collation) (exported r))"
proof -
  obtain r where r: "main_handler_run root_collation calm_backend [] [Settle 2 0] = Some (Inr r)"
    using calm_returns [of root_collation "[]" "[Settle 2 0]"] by blast
  from sortedOutputs_sorted_by_tuple
    [where ckey = root_collation and outs = "collected r" and b = calm_backend and rsched = "[]"
      and csched = "[Settle 2 0]" and r = r] r
  show ?thesis by auto
qed

text \<open>
  C10: for every run of \<open>main_handler\<close>, the \<open>untaggedCount\<close> of the returned summary equals
  the number of records collected into the aggregated output sequence (records of the
  region workers and of the bucket scanner), which is also the number of records handed
  to the exporter; the counter and the sequence agree in every state of the region pool.
\<close>

theorem untaggedCount_counts_outputs:
  "untagged (shared (region_steps b regions evs))
     = length (outputs (shared (region_steps b regions evs)))
   \<and> (main_handler_run ckey b rsched csched = Some (Inr r)
        \<longrightarrow> untaggedCount (returned r) = length (collected r)
          \<and> length (exported r) = length (collected r)
          \<and> main_handler ckey b rsched csched = Some (Inr (returned r)))"
proof (intro conjI impI)
  show "untagged (shared (region_steps b regions evs))
     = length (outputs (shared (region_steps b regions evs)))"
    using counted_region_steps [of b regions evs] by (simp add: counted_def)
next
  assume run: "main_handler_run ckey b rsched csched = Some (Inr r)"
  from main_handler_run_InrD [OF run] obtain t cr where
    c: "collected r = outputs (cos_phase cr (shared (region_phase b (resolved r) rsched)))"
    and u: "untaggedCount (returned r) = untagged (cos_phase cr (shared (region_phase b (resolved r) rsched)))"
    and e: "exported r = sortedOutputs ckey (collected r)"
    by blast
  have "counted (cos_phase cr (shared (region_phase b (resolved r) rsched)))"
    by (intro counted_cos_phase counted_region_phase)
  with c u show "untaggedCount (returned r) = length (collected r)"
    by (simp add: counted_def)
  show "length (exported r) = length (collected r)"
    unfolding e by (rule length_sortedOutputs)
  show "main_handler ckey b rsched csched = Some (Inr (returned r))"
    using run by (simp add: main_handler_def)
qed

theorem untaggedCount_counts_outputs_witness:
  "\<exists>r. main_handler_run root_collation calm_backend [Settle 0 3, Resume 1] [] = Some (Inr r)
      \<and> untaggedCount (returned r) = length (collected r)
      \<and> length (exported r) = length (collected r)
      \<and> main_handler root_collation calm_backend [Settle 0 3, Resume 1] [] = Some (Inr (returned r))"
proof -
  obtain r where r: "main_handler_run root_collation calm_backend [Settle 0 3, Resume 1] [] = Some (Inr r)"
    using calm_returns [of root_collation "[Settle 0 3, Resume 1]" "[]"] by blast
  from untaggedCount_counts_outputs
    [where ckey = root_collation and b = calm_backend and rsched = "[Settle 0 3, Resume 1]"
      and csched = "[]" and r = r] r
  show ?thesis by blast
qed

text \<open>
  C8: in the bucket scanner, a tagging call that fails with status 404 or with the error
  code NoSuchTagSet (in any letter case) counts as an empty tag set, so the bucket is
  classified untagged and one record is emitted for it; any other failure of the call
  emits no record for that bucket. No failure aborts the pool: when every tagging call
  settles, the scanner returns, and its result holds exactly the records of the single
  buckets, every bucket of the listing accounted for.
\<close>

theorem scanCOS_bucket_policy:
  "(no_tag_set err \<longrightarrow>
      bucket_records None bk (Inl err) =
        [\<lparr>service = ''COS'', ident = JStr (Name bk), region = Some (Location bk)\<rparr>]
      \<and> bucket_records (Some ''global'') bk (Inl err) =
        [\<lparr>service = ''COS'', ident = JStr (Name bk), region = Some ''global''\<rparr>])
   \<and> (\<not> no_tag_set err \<longrightarrow>
      bucket_records None bk (Inl err) = [] \<and> bucket_records (Some ''global'') bk (Inl err) = [])
   \<and> no_tag_set (CosErr (Some 404) code)
   \<and> no_tag_set (CosErr status (Some ''NoSuchTagSet''))
   \<and> \<not> no_tag_set (CosErr (Some 403) (Some ''AccessDenied''))
   \<and> (creds b \<and> getService b = Some (t, Inr buckets)
        \<and> (\<forall>bk \<in> set buckets. getBucketTagging b bk \<noteq> None)
      \<longrightarrow> (\<exists>results. scanCOS b sched = Some (Inr results)
            \<and> mset results =
                mset (concat (map (bucket_result None (getBucketTagging b)) buckets)))
          \<and> (\<exists>results. scanCOS_ext b sched = Some (Inr results)
            \<and> mset results =
                mset (concat (map (bucket_result (Some ''global'') (getBucketTagging b)) buckets))))"
proof (intro conjI impI)
  show "no_tag_set (CosErr (Some 404) code)"
    by (simp add: no_tag_set_def)
  show "no_tag_set (CosErr status (Some ''NoSuchTagSet''))"
    by (simp add: no_tag_set_def to_lower_NoSuchTagSet)
  show "\<not> no_tag_set (CosErr (Some 403) (Some ''AccessDenied''))"
    by (simp add: no_tag_set_def to_lower_AccessDenied)
next
  assume a: "creds b \<and> getService b = Some (t, Inr buckets)
        \<and> (\<forall>bk \<in> set buckets. getBucketTagging b bk \<noteq> None)"
  then have tg: "\<And>bk. bk \<in> set buckets \<Longrightarrow> getBucketTagging b bk \<noteq> None" by blast
  from a scanCOS_with_result [OF _ _ tg, where t = t and sentinel = None and sched = sched]
  show "\<exists>results. scanCOS b sched = Some (Inr results)
      \<and> mset results = mset (concat (map (bucket_result None (getBucketTagging b)) buckets))"
    by (simp add: scanCOS_def)
  from a scanCOS_with_result
    [OF _ _ tg, where t = t and sentinel = "Some ''global''" and sched = sched]
  show "\<exists>results. scanCOS_ext b sched = Some (Inr results)
      \<and> mset results = mset (concat (map (bucket_result (Some ''global'') (getBucketTagging b)) buckets))"
    by (simp add: scanCOS_ext_def)
qed (simp_all add: no_tag_set_record other_error_dropped)

theorem scanCOS_bucket_policy_witness:
  "bucket_records None \<lparr>Name = ''bare'', Location = ''r2''\<rparr>
       (Inl (CosErr (Some 404) (Some ''NoSuchTagSet'')))
     = [\<lparr>service = ''COS'', ident = JStr ''bare'', region = Some ''r2''\<rparr>]
   \<and> bucket_records None \<lparr>Name = ''locked'', Location = ''r1''\<rparr>
       (Inl (CosErr (Some 403) (Some ''AccessDenied''))) = []
   \<and> (\<exists>results. scanCOS calm_backend [Settle 1 0] = Some (Inr results)
        \<and> mset results = {#\<lparr>service = ''COS'', ident = JStr ''bare'', region = Some ''r2''\<rparr>#})"
proof -
  have h1: "no_tag_set (CosErr (Some 404) (Some ''NoSuchTagSet''))"
    by (simp add: no_tag_set_def)
  have h2: "\<not> no_tag_set (CosErr (Some 403) (Some ''AccessDenied''))"
    by (simp add: no_tag_set_def to_lower_AccessDenied)
  have h3: "creds calm_backend
      \<and> getService calm_backend = Some (0, Inr [\<lparr>Name = ''bare'', Location = ''r2''\<rparr>,
                                 \<lparr>Name = ''locked'', Location = ''r1''\<rparr>,
                                 \<lparr>Name = ''labelled'', Location = ''r1''\<rparr>])
      \<and> (\<forall>bk \<in> set [\<lparr>Name = ''bare'', Location = ''r2''\<rparr>,
                                 \<lparr>Name = ''locked'', Location = ''r1''\<rparr>,
                                 \<lparr>Name = ''labelled'', Location = ''r1''\<rparr>].
            getBucketTagging calm_backend bk \<noteq> None)"
    by (simp add: calm_backend_def)
  have res: "concat (map (bucket_result None (getBucketTagging calm_backend))
        [\<lparr>Name = ''bare'', Location = ''r2''\<rparr>, \<lparr>Name = ''locked'', Location = ''r1''\<rparr>,
         \<lparr>Name = ''labelled'', Location = ''r1''\<rparr>])
      = [\<lparr>service = ''COS'', ident = JStr ''bare'', region = Some ''r2''\<rparr>]"
    by (simp add: bucket_result_def calm_backend_def bucket_records_def tagsRes_def
        no_tag_set_def to_lower_AccessDenied normalizeCosTagSet_def js_or_def hasNoTags_def
        extractTags_def probes_def)
  note p1 = scanCOS_bucket_policy
    [where err = "CosErr (Some 404) (Some ''NoSuchTagSet'')"
      and bk = "\<lparr>Name = ''bare'', Location = ''r2''\<rparr>" and b = calm_backend and t = 0
      and sched = "[Settle 1 0]"
      and buckets = "[\<lparr>Name = ''bare'', Location = ''r2''\<rparr>, \<lparr>Name = ''locked'', Location = ''r1''\<rparr>,
         \<lparr>Name = ''labelled'', Location = ''r1''\<rparr>]"]
  note p2 = scanCOS_bucket_policy
    [where err = "CosErr (Some 403) (Some ''AccessDenied'')"
      and bk = "\<lparr>Name = ''locked'', Location = ''r1''\<rparr>"]
  from p1 h1 h3 have a: "bucket_records None \<lparr>Name = ''bare'', Location = ''r2''\<rparr>
       (Inl (CosErr (Some 404) (Some ''NoSuchTagSet'')))
     = [\<lparr>service = ''COS'', ident = JStr ''bare'', region = Some ''r2''\<rparr>]"
    by simp
  from p1 h3 have c: "\<exists>results. scanCOS calm_backend [Settle 1 0] = Some (Inr results)
        \<and> mset results = {#\<lparr>service = ''COS'', ident = JStr ''bare'', region = Some ''r2''\<rparr>#}"
    unfolding res by simp
  from p2 h2 have b: "bucket_records None \<lparr>Name = ''locked'', Location = ''r1''\<rparr>
       (Inl (CosErr (Some 403) (Some ''AccessDenied''))) = []"
    by simp
  from a b c show ?thesis by blast
qed

section \<open>Tasks that never settle\<close>








section \<open>What the entry point returns\<close>











lemma scannersForRegion_putObject [simp]:
  "scannersForRegion (b\<lparr>putObject := u\<rparr>) = scannersForRegion b"
  by (simp add: scannersForRegion_def fun_eq_iff)

lemma region_phase_putObject [simp]:
  "region_phase (b\<lparr>putObject := u\<rparr>) = region_phase b"
  by (simp add: region_phase_def region_task_def fun_eq_iff)

lemma scanCOS_putObject [simp]: "scanCOS (b\<lparr>putObject := u\<rparr>) = scanCOS b"
  by (auto simp: scanCOS_def scanCOS_with_def fun_eq_iff split: option.splits sum.splits prod.splits)








section \<open>Timeouts\<close>





























lemma trim_r1: "trim ''r1'' = ''r1''"
  by (simp add: trim_def is_space_def)

text \<open>
  C9: with an override configured the resolver returns the override split on commas,
  trimmed and deduplicated, without a network call; otherwise the region codes of one
  describe-regions call, deduplicated. The resolver of the extended script, at the
  override \<^verbatim>\<open>"r1,r1"\<close>, returns \<^verbatim>\<open>["r1", "r1"]\<close> whatever the backend answers: the entries
  are split, trimmed and the empty ones dropped, but duplicates stay, while the
  discovery branch of the same function removes them.
\<close>

theorem listAllRegions_ext_override_duplicates:
  "listAllRegions_ext (Some ''r1,r1'') requestTimeout answer = Some (0, Inr [''r1'', ''r1''])
   \<and> listAllRegions_ext None 15000 (Some (5, Inr (Some [Some ''r1'', Some ''r1''])))
       = Some (5, Inr [''r1''])"
  by (simp add: listAllRegions_ext_def trim_def is_space_def withTimeout_def map_promise_def
      region_codes_def dedupe_def set_add_def)

end
